theory Spec2Isabelle
  imports Main "HOL-Library.Sublist"
begin

section \<open>Python strings\<close>

text \<open>
  A Python string is a \<open>string\<close>. The three characters that cannot be written inside
  an inner-syntax literal get names.
\<close>

abbreviation dquote :: char where "dquote \<equiv> CHR 0x22"
abbreviation squote :: char where "squote \<equiv> CHR 0x27"
abbreviation backslash :: char where "backslash \<equiv> CHR 0x5C"
abbreviation newline :: char where "newline \<equiv> CHR 0x0A"
abbreviation carriage_return :: char where "carriage_return \<equiv> CHR 0x0D"
abbreviation nul :: char where "nul \<equiv> CHR 0x00"

text \<open>\<open>s.find(sub)\<close>: the lowest index at which \<open>sub\<close> starts in \<open>s\<close>, or \<open>-1\<close>.\<close>

fun str_find :: "string \<Rightarrow> string \<Rightarrow> int" where
  "str_find [] sub = (if sub = [] then 0 else -1)"
| "str_find (c # cs) sub =
     (if prefix sub (c # cs) then 0
      else (let r = str_find cs sub in if r < 0 then -1 else r + 1))"

text \<open>\<open>s.split(sep)\<close> for a one-character separator: never an empty list.\<close>

fun str_split :: "string \<Rightarrow> char \<Rightarrow> string list" where
  "str_split [] sep = [[]]"
| "str_split (c # cs) sep =
     (if c = sep then [] # str_split cs sep
      else (case str_split cs sep of
              [] \<Rightarrow> [[c]]
            | t # ts \<Rightarrow> (c # t) # ts))"

text \<open>\<open>sep.join(xs)\<close>.\<close>

fun str_join :: "string \<Rightarrow> string list \<Rightarrow> string" where
  "str_join sep [] = []"
| "str_join sep [x] = x"
| "str_join sep (x # y # ys) = x @ sep @ str_join sep (y # ys)"

text \<open>\<open>s.endswith(c)\<close> for a one-character \<open>c\<close>.\<close>

definition endswith :: "string \<Rightarrow> char \<Rightarrow> bool" where
  "endswith s c = (s \<noteq> [] \<and> last s = c)"

text \<open>
  \<open>s.replace(old, '')\<close> where \<open>old\<close> is the empty string (\<open>None\<close> here: the
  string is returned as it is) or one character (every occurrence is dropped). These are
  the only two shapes \<open>_eat_items\<close> is called with.
\<close>

fun str_replace_blank :: "string \<Rightarrow> char option \<Rightarrow> string" where
  "str_replace_blank s None = s"
| "str_replace_blank s (Some old) = filter (\<lambda>c. c \<noteq> old) s"

section \<open>The csv reader of the standard library\<close>

text \<open>
  \<open>csv.reader(six.StringIO(value), escapechar='\\')\<close> is the reader of CPython's
  \<open>_csv\<close> module with the default (excel) dialect: delimiter comma, quote character
  double quote, doublequote on, skipinitialspace off, quoting minimal, strict off, and
  the backslash as escape character. The reader is a state machine over the characters
  of each line the \<open>StringIO\<close> yields; \<open>reader_state\<close> and \<open>parse_process_char\<close>
  follow \<open>parse_process_char\<close> of \<open>Modules/_csv.c\<close> case by case. The end of a line
  is the pseudo-character \<open>None\<close>.
\<close>

datatype reader_state =
    START_RECORD | START_FIELD | ESCAPED_CHAR | IN_FIELD
  | IN_QUOTED_FIELD | ESCAPE_IN_QUOTED_FIELD | QUOTE_IN_QUOTED_FIELD
  | EAT_CRNL | AFTER_ESCAPED_CRNL

record reader =
  self_state :: reader_state
  self_fields :: "string list"
  self_field :: string

text \<open>\<open>csv.field_size_limit()\<close>, left at its default.\<close>

definition field_limit :: nat where
  "field_limit = 131072"

text \<open>\<open>parse_reset\<close>.\<close>

definition parse_reset :: reader where
  "parse_reset = \<lparr>self_state = START_RECORD, self_fields = [], self_field = []\<rparr>"

text \<open>\<open>parse_add_char\<close>: fails (\<open>csv.Error\<close>) once the field is at the limit.\<close>

definition parse_add_char :: "reader \<Rightarrow> char \<Rightarrow> reader option" where
  "parse_add_char r c =
     (if length (self_field r) \<ge> field_limit then None
      else Some (r\<lparr>self_field := self_field r @ [c]\<rparr>))"

text \<open>\<open>parse_save_field\<close>.\<close>

definition parse_save_field :: "reader \<Rightarrow> reader" where
  "parse_save_field r = r\<lparr>self_fields := self_fields r @ [self_field r], self_field := []\<rparr>"

definition is_crnl :: "char option \<Rightarrow> bool" where
  "is_crnl c = (c = Some newline \<or> c = Some carriage_return)"

definition add_then :: "reader \<Rightarrow> char \<Rightarrow> reader_state \<Rightarrow> reader option" where
  "add_then r c s = map_option (\<lambda>r'. r'\<lparr>self_state := s\<rparr>) (parse_add_char r c)"

text \<open>The bodies of \<open>case START_FIELD\<close> and \<open>case IN_FIELD\<close>, which other cases fall into.\<close>

definition start_field_case :: "reader \<Rightarrow> char option \<Rightarrow> reader option" where
  "start_field_case r c =
     (if is_crnl c \<or> c = None then
        Some ((parse_save_field r)\<lparr>self_state := (if c = None then START_RECORD else EAT_CRNL)\<rparr>)
      else if c = Some dquote then Some (r\<lparr>self_state := IN_QUOTED_FIELD\<rparr>)
      else if c = Some backslash then Some (r\<lparr>self_state := ESCAPED_CHAR\<rparr>)
      else if c = Some CHR '','' then Some (parse_save_field r)
      else add_then r (the c) IN_FIELD)"

definition in_field_case :: "reader \<Rightarrow> char option \<Rightarrow> reader option" where
  "in_field_case r c =
     (if is_crnl c \<or> c = None then
        Some ((parse_save_field r)\<lparr>self_state := (if c = None then START_RECORD else EAT_CRNL)\<rparr>)
      else if c = Some backslash then Some (r\<lparr>self_state := ESCAPED_CHAR\<rparr>)
      else if c = Some CHR '','' then Some ((parse_save_field r)\<lparr>self_state := START_FIELD\<rparr>)
      else parse_add_char r (the c))"

fun parse_process_char :: "reader \<Rightarrow> char option \<Rightarrow> reader option" where
  "parse_process_char r c =
     (case self_state r of
        START_RECORD \<Rightarrow>
          (if c = None then Some r
           else if is_crnl c then Some (r\<lparr>self_state := EAT_CRNL\<rparr>)
           else start_field_case (r\<lparr>self_state := START_FIELD\<rparr>) c)
      | START_FIELD \<Rightarrow> start_field_case r c
      | ESCAPED_CHAR \<Rightarrow>
          (if is_crnl c then add_then r (the c) AFTER_ESCAPED_CRNL
           else add_then r (case c of None \<Rightarrow> newline | Some x \<Rightarrow> x) IN_FIELD)
      | AFTER_ESCAPED_CRNL \<Rightarrow>
          (if c = None then Some r else in_field_case r c)
      | IN_FIELD \<Rightarrow> in_field_case r c
      | IN_QUOTED_FIELD \<Rightarrow>
          (if c = None then Some r
           else if c = Some backslash then Some (r\<lparr>self_state := ESCAPE_IN_QUOTED_FIELD\<rparr>)
           else if c = Some dquote then Some (r\<lparr>self_state := QUOTE_IN_QUOTED_FIELD\<rparr>)
           else parse_add_char r (the c))
      | ESCAPE_IN_QUOTED_FIELD \<Rightarrow>
          add_then r (case c of None \<Rightarrow> newline | Some x \<Rightarrow> x) IN_QUOTED_FIELD
      | QUOTE_IN_QUOTED_FIELD \<Rightarrow>
          (if c = Some dquote then add_then r dquote IN_QUOTED_FIELD
           else if c = Some CHR '','' then Some ((parse_save_field r)\<lparr>self_state := START_FIELD\<rparr>)
           else if is_crnl c \<or> c = None then
             Some ((parse_save_field r)\<lparr>self_state := (if c = None then START_RECORD else EAT_CRNL)\<rparr>)
           else add_then r (the c) IN_FIELD)
      | EAT_CRNL \<Rightarrow>
          (if is_crnl c then Some r
           else if c = None then Some (r\<lparr>self_state := START_RECORD\<rparr>)
           else None))"

text \<open>
  The characters of one line, in order: a NUL is refused (\<open>line contains NULL byte\<close>),
  any other character goes through the state machine. This is the reader of the Python
  versions this code was written for (2.6 to 3.5; it stays so up to 3.10). From 3.11 on
  the reader takes a NUL as an ordinary character; no statement below is about an input
  with a NUL in it.
\<close>

fun process_line :: "reader \<Rightarrow> string \<Rightarrow> reader option" where
  "process_line r [] = Some r"
| "process_line r (c # cs) =
     (if c = nul then None
      else (case parse_process_char r (Some c) of
              None \<Rightarrow> None
            | Some r' \<Rightarrow> process_line r' cs))"

text \<open>Iterating a \<open>StringIO\<close>: the lines of the text, each with its terminating newline.\<close>

fun string_lines :: "string \<Rightarrow> string list" where
  "string_lines [] = []"
| "string_lines (c # cs) =
     (if c = newline then [c] # string_lines cs
      else (case string_lines cs of
              [] \<Rightarrow> [[c]]
            | l # ls \<Rightarrow> (c # l) # ls))"

datatype error = ValueError string | IndexError | csv_Error

text \<open>
  \<open>list(csv.reader(...))\<close>: \<open>Reader_iternext\<close> called until the lines run out. A row
  ends when the state is back at \<open>START_RECORD\<close> after the end of a line; at the end of
  the input a row under construction is kept when its current field is not empty or a
  quoted field is open (the dialect is not strict), and dropped otherwise. An error in
  any row is the error of the whole list.
\<close>

fun reader_rows :: "reader \<Rightarrow> string list \<Rightarrow> error + string list list" where
  "reader_rows r [] =
     (if self_field r \<noteq> [] \<or> self_state r = IN_QUOTED_FIELD
      then Inr [self_fields (parse_save_field r)] else Inr [])"
| "reader_rows r (l # ls) =
     (case process_line r l of
        None \<Rightarrow> Inl csv_Error
      | Some r1 \<Rightarrow>
          (case parse_process_char r1 None of
             None \<Rightarrow> Inl csv_Error
           | Some r2 \<Rightarrow>
               if self_state r2 = START_RECORD
               then (case reader_rows parse_reset ls of
                       Inl e \<Rightarrow> Inl e
                     | Inr rows \<Rightarrow> Inr (self_fields r2 # rows))
               else reader_rows r2 ls))"

definition csv_reader :: "string \<Rightarrow> error + string list list" where
  "csv_reader value = reader_rows parse_reset (string_lines value)"

text \<open>\<open>list(csv.reader(...))[0]\<close>: an empty list of rows has no first element.\<close>

definition csv_first_row :: "string \<Rightarrow> error + string list" where
  "csv_first_row value =
     (case csv_reader value of
        Inl e \<Rightarrow> Inl e
      | Inr [] \<Rightarrow> Inl IndexError
      | Inr (row # rows) \<Rightarrow> Inr row)"

section \<open>The reader never makes text\<close>

text \<open>
  The fields of the first row, joined with commas, are never longer than the input: each
  character of the input adds at most one character or one field boundary. The nested
  split below terminates because of it.
\<close>

definition joinlen :: "string list \<Rightarrow> nat" where
  "joinlen xs = length (concat xs) + length xs"

definition out_len :: "reader \<Rightarrow> nat" where
  "out_len r = joinlen (self_fields r) + length (self_field r)
     + (if self_state r = ESCAPED_CHAR \<or> self_state r = ESCAPE_IN_QUOTED_FIELD then 1 else 0)"

text \<open>Three more measures of the reader's state, for the facts about the reader below:
  the characters it holds, whether the end of the input keeps its row, and that a field
  is not empty after an escaped line break.\<close>

definition reader_chars :: "reader \<Rightarrow> char set" where
  "reader_chars r = set (self_field r) \<union> \<Union> (set ` set (self_fields r))"

definition row_open :: "reader \<Rightarrow> bool" where
  "row_open r = (self_field r \<noteq> [] \<or> self_state r = IN_QUOTED_FIELD)"

definition crnl_field :: "reader \<Rightarrow> bool" where
  "crnl_field r = (self_state r = AFTER_ESCAPED_CRNL \<longrightarrow> self_field r \<noteq> [])"

lemmas csv_defs = parse_add_char_def parse_save_field_def is_crnl_def add_then_def
  start_field_case_def in_field_case_def

lemma out_len_char:
  "parse_process_char r (Some c) = Some r' \<Longrightarrow> out_len r' \<le> out_len r + 1"
  by (cases "self_state r")
     (auto simp: out_len_def joinlen_def csv_defs split: if_splits)

lemma out_len_eol:
  "parse_process_char r None = Some r' \<Longrightarrow>
     out_len r' \<le> out_len r + 1 \<and> (self_state r' \<noteq> START_RECORD \<longrightarrow> out_len r' \<le> out_len r)"
  by (cases "self_state r")
     (auto simp: out_len_def joinlen_def csv_defs split: if_splits)

lemma out_len_line:
  "process_line r l = Some r' \<Longrightarrow> out_len r' \<le> out_len r + length l"
proof (induction l arbitrary: r)
  case Nil
  then show ?case by simp
next
  case (Cons c cs)
  then obtain r1 where 1: "parse_process_char r (Some c) = Some r1"
    and 2: "process_line r1 cs = Some r'"
    by (auto split: if_splits option.splits)
  from out_len_char[OF 1] Cons.IH[OF 2] show ?case by simp
qed

lemma reader_rows_first_len:
  "reader_rows r ls = Inr (row # rows) \<Longrightarrow> joinlen row \<le> out_len r + length (concat ls) + 1"
proof (induction ls arbitrary: r)
  case Nil
  then show ?case
    by (auto simp: out_len_def joinlen_def parse_save_field_def split: if_splits)
next
  case (Cons l ls)
  from Cons.prems obtain r1 r2 where 1: "process_line r l = Some r1"
    and 2: "parse_process_char r1 None = Some r2"
    by (auto split: option.splits)
  note a = out_len_line[OF 1] and b = out_len_eol[OF 2]
  show ?case
  proof (cases "self_state r2 = START_RECORD")
    case True
    with Cons.prems 1 2 have "row = self_fields r2" by (auto split: sum.splits)
    moreover have "joinlen (self_fields r2) \<le> out_len r2" by (simp add: out_len_def)
    ultimately show ?thesis using a b by simp
  next
    case False
    with Cons.prems 1 2 have "reader_rows r2 ls = Inr (row # rows)" by simp
    from Cons.IH[OF this] a b False show ?thesis by simp
  qed
qed

lemma concat_string_lines: "concat (string_lines s) = s"
  by (induction s) (auto split: list.splits)

lemma csv_first_row_len:
  "csv_first_row v = Inr parts \<Longrightarrow> joinlen parts \<le> length v + 1"
  using reader_rows_first_len[of parse_reset "string_lines v" parts]
  by (auto simp: csv_first_row_def csv_reader_def concat_string_lines out_len_def joinlen_def
      parse_reset_def split: sum.splits list.splits)

section \<open>The splitter: \<open>awscli/utils.py\<close>\<close>

text \<open>\<open>_find_quote_char_in_part\<close>.\<close>

definition find_quote_char_in_part :: "string \<Rightarrow> char option" where
  "find_quote_char_in_part part =
     (if dquote \<notin> set part \<and> squote \<notin> set part then None
      else
        (let double_quote = str_find part [dquote];
             single_quote = str_find part [squote]
         in if double_quote \<ge> 0 \<and> single_quote = -1 then Some dquote
            else if single_quote \<ge> 0 \<and> double_quote = -1 then Some squote
            else if double_quote < single_quote then Some dquote
            else if single_quote < double_quote then Some squote
            else None))"

text \<open>
  \<open>_eat_items\<close>. The iterator over the rough tokens is the list of the tokens not yet
  taken; the function returns the joined chunk and what is left of the iterator. Running
  out of tokens is \<open>ValueError(value)\<close>.
\<close>

fun eat_items_loop ::
  "string \<Rightarrow> string list \<Rightarrow> string list \<Rightarrow> char \<Rightarrow> char option
     \<Rightarrow> error + (string list \<times> string list)" where
  "eat_items_loop value [] chunks end_char replace_char = Inl (ValueError value)"
| "eat_items_loop value (current # iter_parts) chunks end_char replace_char =
     (let chunks' = chunks @ [str_replace_blank current replace_char]
      in if endswith current end_char then Inr (chunks', iter_parts)
         else eat_items_loop value iter_parts chunks' end_char replace_char)"

definition eat_items ::
  "string \<Rightarrow> string list \<Rightarrow> string \<Rightarrow> char \<Rightarrow> char option \<Rightarrow> error + (string \<times> string list)" where
  "eat_items value iter_parts part end_char replace_char =
     (case eat_items_loop value iter_parts [str_replace_blank part replace_char]
             end_char replace_char of
        Inl e \<Rightarrow> Inl e
      | Inr (chunks, iter_parts') \<Rightarrow> Inr (str_join '','' chunks, iter_parts'))"

lemma eat_items_loop_Inr:
  "eat_items_loop value iter_parts chunks end_char replace_char = Inr (chunks', rest) \<Longrightarrow>
     \<exists>eaten. iter_parts = eaten @ rest \<and> eaten \<noteq> [] \<and>
       chunks' = chunks @ map (\<lambda>c. str_replace_blank c replace_char) eaten \<and>
       endswith (last eaten) end_char \<and> (\<forall>c \<in> set (butlast eaten). \<not> endswith c end_char)"
proof (induction iter_parts arbitrary: chunks)
  case Nil
  then show ?case by simp
next
  case (Cons current iter_parts)
  show ?case
  proof (cases "endswith current end_char")
    case True
    with Cons.prems show ?thesis by (intro exI[of _ "[current]"]) auto
  next
    case False
    with Cons.prems have "eat_items_loop value iter_parts
        (chunks @ [str_replace_blank current replace_char]) end_char replace_char = Inr (chunks', rest)"
      by simp
    from Cons.IH[OF this] obtain eaten where e: "iter_parts = eaten @ rest" "eaten \<noteq> []"
      "chunks' = (chunks @ [str_replace_blank current replace_char])
         @ map (\<lambda>c. str_replace_blank c replace_char) eaten"
      "endswith (last eaten) end_char" "\<forall>c \<in> set (butlast eaten). \<not> endswith c end_char"
      by blast
    with False show ?thesis by (intro exI[of _ "current # eaten"]) auto
  qed
qed

lemma length_str_join: "length (str_join '','' xs) = joinlen xs - 1"
  by (induction "'',''" xs rule: str_join.induct) (auto simp: joinlen_def)

lemma joinlen_append: "joinlen (xs @ ys) = joinlen xs + joinlen ys"
  by (simp add: joinlen_def)

lemma joinlen_Cons: "joinlen (x # xs) = Suc (length x + joinlen xs)"
  by (simp add: joinlen_def)

lemma eat_items_None_Inr:
  assumes "eat_items value iter_parts part end_char None = Inr (new_chunk, rest)"
  shows "joinlen rest < joinlen iter_parts"
    and "Suc (length new_chunk + joinlen rest) = joinlen (part # iter_parts)"
proof -
  from assms obtain chunks where
    l: "eat_items_loop value iter_parts [part] end_char None = Inr (chunks, rest)"
    and c: "new_chunk = str_join '','' chunks"
    by (auto simp: eat_items_def split: sum.splits)
  from eat_items_loop_Inr[OF l] obtain eaten where
    e: "iter_parts = eaten @ rest" "eaten \<noteq> []" "chunks = part # eaten"
    by auto
  from e show "joinlen rest < joinlen iter_parts"
    by (cases eaten) (auto simp: joinlen_append joinlen_Cons)
  from e c show "Suc (length new_chunk + joinlen rest) = joinlen (part # iter_parts)"
    by (simp add: length_str_join joinlen_append joinlen_Cons)
qed

lemma eat_items_rest:
  assumes "eat_items value iter_parts part end_char replace_char = Inr (new_chunk, rest)"
  shows "joinlen rest < joinlen iter_parts"
proof -
  from assms obtain chunks where
    l: "eat_items_loop value iter_parts [str_replace_blank part replace_char] end_char replace_char
          = Inr (chunks, rest)"
    by (auto simp: eat_items_def split: sum.splits)
  from eat_items_loop_Inr[OF l] obtain eaten where
    e: "iter_parts = eaten @ rest" "eaten \<noteq> []"
    by auto
  then show ?thesis
    by (cases eaten) (auto simp: joinlen_append joinlen_Cons)
qed

lemma str_find_nonneg_nonempty: "0 \<le> str_find s (a # b) \<Longrightarrow> s \<noteq> []"
  by (cases s) auto

lemma list_chunk_measure:
  assumes "0 \<le> str_find part ''=[''"
    and "(if CHR '']'' \<in> set part then Inr (part, iter_parts)
          else eat_items value iter_parts part CHR '']'' None) = Inr (new_chunk, rest)"
  shows "2 * length (drop (nat (k + 2)) (butlast new_chunk)) + 3 < 2 * joinlen (part # iter_parts)"
    and "joinlen rest < joinlen (part # iter_parts)"
proof -
  from assms(1) have ne: "part \<noteq> []" by (rule str_find_nonneg_nonempty)
  have *: "Suc (length new_chunk + joinlen rest) = joinlen (part # iter_parts)"
    using assms(2) eat_items_None_Inr(2)[of "value" iter_parts part "CHR '']''" new_chunk rest]
    by (auto split: if_splits simp: joinlen_Cons)
  then show "joinlen rest < joinlen (part # iter_parts)" by simp
  have "length part \<le> length new_chunk"
    using assms(2) * eat_items_None_Inr(1)[of "value" iter_parts part "CHR '']''" new_chunk rest]
    by (auto split: if_splits simp: joinlen_Cons)
  with ne have "0 < length new_chunk" by (cases part) auto
  moreover have "length (drop (nat (k + 2)) (butlast new_chunk)) \<le> length new_chunk - 1"
    by simp
  ultimately show
    "2 * length (drop (nat (k + 2)) (butlast new_chunk)) + 3 < 2 * joinlen (part # iter_parts)"
    using * by linarith
qed

text \<open>
  \<open>_split_with_quotes\<close>, and the body of its \<open>for\<close> loop as \<open>split_parts\<close>: the list
  is what the iterator \<open>iter_parts\<close> still holds, so a part that \<open>_eat_items\<close> has
  taken is not seen by the loop again. \<open>new_parts\<close> is built front to back:
  the part processed first is the head. The slice \<open>new_chunk[list_start + 2:-1]\<close> is
  \<open>drop (list_start + 2) (butlast new_chunk)\<close> and \<open>new_chunk[:list_start + 1]\<close> is
  \<open>take (list_start + 1) new_chunk\<close>, for \<open>list_start \<ge> 0\<close>.
\<close>

function split_with_quotes :: "string \<Rightarrow> error + string list"
  and split_parts :: "string \<Rightarrow> string list \<Rightarrow> error + string list" where
  "split_with_quotes value =
     (case csv_first_row value of
        Inl e \<Rightarrow>
          (if e = csv_Error then Inl (ValueError (''Bad csv value: '' @ value)) else Inl e)
      | Inr parts \<Rightarrow> split_parts value parts)"
| "split_parts value [] = Inr []"
| "split_parts value (part # iter_parts) =
     (let quote_char = find_quote_char_in_part part;
          list_start = str_find part ''=[''
      in
        if list_start \<ge> 0 \<and> str_find value '']'' \<noteq> -1 \<and>
           (case quote_char of None \<Rightarrow> True | Some q \<Rightarrow> str_find part [q] > list_start)
        then
          (case (if CHR '']'' \<in> set part then Inr (part, iter_parts)
                 else eat_items value iter_parts part CHR '']'' None) of
             Inl e \<Rightarrow> Inl e
           | Inr (new_chunk, iter_parts') \<Rightarrow>
               (case split_with_quotes (drop (nat (list_start + 2)) (butlast new_chunk)) of
                  Inl e \<Rightarrow> Inl e
                | Inr list_items \<Rightarrow>
                    (case split_parts value iter_parts' of
                       Inl e \<Rightarrow> Inl e
                     | Inr new_parts \<Rightarrow>
                         Inr ((take (nat (list_start + 1)) new_chunk @ str_join '','' list_items)
                              # new_parts))))
        else
          (case quote_char of
             None \<Rightarrow>
               (case split_parts value iter_parts of
                  Inl e \<Rightarrow> Inl e
                | Inr new_parts \<Rightarrow> Inr (part # new_parts))
           | Some q \<Rightarrow>
               if count_list part q = 2 then
                 (case split_parts value iter_parts of
                    Inl e \<Rightarrow> Inl e
                  | Inr new_parts \<Rightarrow> Inr (str_replace_blank part (Some q) # new_parts))
               else
                 (case eat_items value iter_parts part q (Some q) of
                    Inl e \<Rightarrow> Inl e
                  | Inr (new_chunk, iter_parts') \<Rightarrow>
                      (case split_parts value iter_parts' of
                         Inl e \<Rightarrow> Inl e
                       | Inr new_parts \<Rightarrow> Inr (new_chunk # new_parts)))))"
  by pat_completeness auto

text \<open>
  The nested call is on a string shorter than what is left of the input, and the loop
  goes on with fewer tokens.
\<close>

termination
proof (relation "measure (\<lambda>x. case x of Inl v \<Rightarrow> 2 * length v + 3
                                      | Inr (v, ps) \<Rightarrow> 2 * joinlen ps)")
  show "wf (measure (\<lambda>x. case x of Inl v \<Rightarrow> 2 * length v + 3
                                  | Inr (v, ps) \<Rightarrow> 2 * joinlen ps))"
    by simp
qed (auto dest: csv_first_row_len eat_items_rest list_chunk_measure simp: joinlen_Cons)

declare split_with_quotes.simps [simp del]
declare split_parts.simps(2) [simp del]

text \<open>
  \<open>split_on_commas\<close>. In the second branch \<open>csv.Error\<close> and the \<open>IndexError\<close> of
  \<open>[0]\<close> are not caught.
\<close>

definition split_on_commas :: "string \<Rightarrow> error + string list" where
  "split_on_commas value =
     (if \<not> list_ex (\<lambda>char. char \<in> set value)
             [dquote, backslash, squote, CHR '']'', CHR ''['']
      then Inr (str_split value CHR '','')
      else if \<not> list_ex (\<lambda>char. char \<in> set value) [dquote, squote, CHR ''['', CHR '']'']
      then csv_first_row value
      else split_with_quotes value)"

section \<open>The export command: \<open>awscli/customizations/configure/export.py\<close>\<close>

text \<open>
  The session is the two lookups the command makes: \<open>get_config_variable(name,
  methods=(m,))\<close>, \<open>None\<close> when the variable is not there, and \<open>get_credentials()\<close>,
  \<open>None\<close> or the pair of \<open>access_key\<close> and \<open>secret_key\<close>.
\<close>

datatype lookup_method = Env | Config

record session =
  get_config_variable :: "string \<Rightarrow> lookup_method \<Rightarrow> string option"
  get_credentials :: "(string \<times> string) option"

text \<open>
  The sentinel \<open>NOT_SET\<close> is compared by identity (\<open>is not NOT_SET\<close>), so it is a
  value of its own, apart from every string a lookup returns.
\<close>

datatype config_value = NOT_SET | Value string

text \<open>
  Modelled from the spec: the constant \<open>NOT_SET\<close> is imported from the package's
  \<open>__init__\<close>, which is not among the sources; the spec only calls it "not set". The
  text that \<open>"%s" % NOT_SET\<close> prints is the parameter \<open>not_set\<close>.
\<close>

fun format_s :: "string \<Rightarrow> config_value \<Rightarrow> string" where
  "format_s not_set NOT_SET = not_set"
| "format_s not_set (Value v) = v"

text \<open>The calls made on the session, in order.\<close>

datatype call = GetConfigVariable string lookup_method | GetCredentials

text \<open>\<open>_lookup_config\<close>: the result and the calls it made, after those in \<open>log\<close>.\<close>

definition lookup_config :: "session \<Rightarrow> string \<Rightarrow> call list \<Rightarrow> config_value \<times> call list" where
  "lookup_config self name log =
     (let log1 = log @ [GetConfigVariable name Env]
      in case get_config_variable self name Env of
           Some v \<Rightarrow> (Value v, log1)
         | None \<Rightarrow>
             (let log2 = log1 @ [GetConfigVariable name Config]
              in case get_config_variable self name Config of
                   Some v \<Rightarrow> (Value v, log2)
                 | None \<Rightarrow> (NOT_SET, log2)))"

text \<open>\<open>_lookup_credentials\<close>.\<close>

definition lookup_credentials ::
  "session \<Rightarrow> call list \<Rightarrow> (config_value \<times> config_value) \<times> call list" where
  "lookup_credentials self log =
     (let (access_key, log1) = lookup_config self ''access_key'' log
      in if access_key \<noteq> NOT_SET then
           (let (secret_key, log2) = lookup_config self ''secret_key'' log1
            in ((access_key, secret_key), log2))
         else
           (case get_credentials self of
              None \<Rightarrow> ((NOT_SET, NOT_SET), log1 @ [GetCredentials])
            | Some (a, k) \<Rightarrow> ((Value a, Value k), log1 @ [GetCredentials])))"

text \<open>\<open>_run_main\<close>: the lines printed to standard output, and the calls made.\<close>

definition run_main :: "string \<Rightarrow> session \<Rightarrow> string list \<times> call list" where
  "run_main not_set self =
     (let ((access_key, secret_key), log1) = lookup_credentials self [];
          out1 = [''export AWS_ACCESS_KEY_ID='' @ format_s not_set access_key,
                  ''export AWS_SECRET_ACCESS_KEY='' @ format_s not_set secret_key];
          (region, log2) = lookup_config self ''region'' log1
      in if region \<noteq> NOT_SET
         then (out1 @ [''export AWS_DEFAULT_REGION='' @ format_s not_set region], log2)
         else (out1, log2))"

section \<open>Facts about the string functions\<close>

lemma str_split_nonempty: "str_split s sep \<noteq> []"
  by (induction s) (auto split: list.splits)

lemma str_join_Cons: "xs \<noteq> [] \<Longrightarrow> str_join sep (x # xs) = x @ sep @ str_join sep xs"
  by (cases xs) auto

lemma str_join_Cons_Cons: "str_join sep ((c # t) # ts) = c # str_join sep (t # ts)"
  by (cases ts) auto

text \<open>
  \<open>str_split\<close> is the plain split: joining its tokens gives the string back, and no
  token holds the separator.
\<close>

lemma str_join_split: "str_join [sep] (str_split s sep) = s"
proof (induction s)
  case Nil
  then show ?case by simp
next
  case (Cons c cs)
  then show ?case
    using str_split_nonempty[of cs sep]
    by (cases "str_split cs sep") (auto simp: str_join_Cons str_join_Cons_Cons)
qed

lemma str_split_no_sep: "t \<in> set (str_split s sep) \<Longrightarrow> sep \<notin> set t"
  by (induction s arbitrary: t) (auto split: if_splits list.splits)

lemma str_split_token: "sep \<notin> set t \<Longrightarrow> str_split t sep = [t]"
  by (induction t) auto

lemma str_split_append:
  "sep \<notin> set t \<Longrightarrow> str_split (t @ sep # s) sep = t # str_split s sep"
  by (induction t) auto

lemma str_split_join:
  "ts \<noteq> [] \<Longrightarrow> \<forall>t \<in> set ts. sep \<notin> set t \<Longrightarrow> str_split (str_join [sep] ts) sep = ts"
proof (induction ts)
  case Nil
  then show ?case by simp
next
  case (Cons t ts)
  show ?case
  proof (cases ts)
    case Nil
    with Cons.prems show ?thesis by (simp add: str_split_token)
  next
    case (Cons u us)
    with Cons.prems Cons.IH show ?thesis by (simp add: str_split_append)
  qed
qed

text \<open>For one character, \<open>str_find\<close> is the length of the text before its first occurrence.\<close>

lemma str_find_char:
  "str_find s [c] = (if c \<in> set s then int (length (takeWhile (\<lambda>x. x \<noteq> c) s)) else -1)"
  by (induction s) (auto simp: Let_def)

section \<open>Evaluating the splitter on a given string\<close>

lemmas csv_eval = csv_first_row_def csv_reader_def parse_reset_def csv_defs field_limit_def

lemmas split_eval = split_on_commas_def split_with_quotes.simps split_parts.simps
  eat_items_def find_quote_char_in_part_def endswith_def Let_def

section \<open>The fast path\<close>

text \<open>
  C1. For every input that contains none of the double quote, the backslash, the single
  quote and the two square brackets, \<open>split_on_commas\<close> returns exactly the plain comma
  split of the input (\<open>str_split\<close>, which \<open>str_join_split\<close> and \<open>str_split_no_sep\<close>
  characterise); the empty input gives one token, the empty string.
\<close>

theorem split_on_commas_plain:
  "(dquote \<notin> set value \<and> backslash \<notin> set value \<and> squote \<notin> set value \<and>
    CHR ''['' \<notin> set value \<and> CHR '']'' \<notin> set value
      \<longrightarrow> split_on_commas value = Inr (str_split value CHR '','')) \<and>
   split_on_commas [] = Inr [[]]"
  by (simp add: split_on_commas_def)

theorem split_on_commas_plain_witness:
  "dquote \<notin> set ''a,b,c'' \<and> backslash \<notin> set ''a,b,c'' \<and> squote \<notin> set ''a,b,c'' \<and>
   CHR ''['' \<notin> set ''a,b,c'' \<and> CHR '']'' \<notin> set ''a,b,c'' \<and>
   split_on_commas ''a,b,c'' = Inr [''a'', ''b'', ''c'']"
  using split_on_commas_plain[of "''a,b,c''"] by simp

section \<open>The quote character of a token\<close>

text \<open>
  C7. The active quote character of a rough token: when both quote characters occur, the
  one whose first occurrence is earlier (the shorter text before it); when one occurs,
  that one; when none occurs, \<open>None\<close>.
\<close>

theorem find_quote_char_in_part_first:
  "find_quote_char_in_part part =
     (if dquote \<in> set part \<and> squote \<in> set part then
        (if length (takeWhile (\<lambda>x. x \<noteq> dquote) part) < length (takeWhile (\<lambda>x. x \<noteq> squote) part)
         then Some dquote else Some squote)
      else if dquote \<in> set part then Some dquote
      else if squote \<in> set part then Some squote
      else None)"
proof -
  have "length (takeWhile (\<lambda>x. x \<noteq> dquote) part) \<noteq> length (takeWhile (\<lambda>x. x \<noteq> squote) part)"
    if "dquote \<in> set part" "squote \<in> set part"
    using that by (induction part) auto
  then show ?thesis
    by (auto simp: find_quote_char_in_part_def str_find_char Let_def)
qed

section \<open>The export command\<close>

text \<open>
  C8. The claim is that no line is written for a value that is not set. With nothing in
  the environment, nothing in the config file and no credentials, \<open>_run_main\<close> prints
  the two credential lines all the same, each with the text of the sentinel as its
  value: only the region is guarded.
\<close>

theorem run_main_not_set_printed:
  "fst (run_main not_set \<lparr>get_config_variable = \<lambda>name m. None, get_credentials = None\<rparr>) =
     [''export AWS_ACCESS_KEY_ID='' @ not_set, ''export AWS_SECRET_ACCESS_KEY='' @ not_set]"
  by (simp add: run_main_def lookup_credentials_def lookup_config_def Let_def)

text \<open>
  C10. In \<open>_lookup_config\<close> the environment comes first: when the environment has the
  variable, its value is returned and the only call made on the session is the lookup
  in the environment; the result is the sentinel exactly when neither the environment
  nor the config file has the variable.
\<close>

theorem lookup_config_env_first:
  "(get_config_variable self name Env = Some v \<longrightarrow>
      lookup_config self name log = (Value v, log @ [GetConfigVariable name Env])) \<and>
   (fst (lookup_config self name log) = NOT_SET \<longleftrightarrow>
      get_config_variable self name Env = None \<and> get_config_variable self name Config = None)"
  by (auto simp: lookup_config_def Let_def split: option.splits)

theorem lookup_config_env_first_witness:
  "get_config_variable
     \<lparr>get_config_variable = (\<lambda>name m. if m = Env then Some ''eu-west-1'' else Some ''us-east-1''),
      get_credentials = None\<rparr> ''region'' Env = Some ''eu-west-1'' \<and>
   lookup_config
     \<lparr>get_config_variable = (\<lambda>name m. if m = Env then Some ''eu-west-1'' else Some ''us-east-1''),
      get_credentials = None\<rparr> ''region'' []
     = (Value ''eu-west-1'', [GetConfigVariable ''region'' Env]) \<and>
   fst (lookup_config \<lparr>get_config_variable = (\<lambda>name m. None), get_credentials = None\<rparr>
          ''region'' []) = NOT_SET"
  using lookup_config_env_first[of
      "\<lparr>get_config_variable = (\<lambda>name m. if m = Env then Some ''eu-west-1'' else Some ''us-east-1''),
        get_credentials = None\<rparr>" "''region''" "''eu-west-1''" "[]"]
    lookup_config_env_first[of
      "\<lparr>get_config_variable = (\<lambda>name m. None), get_credentials = None\<rparr>" "''region''" "[]" "[]"]
  by simp

section \<open>Facts about \<open>_eat_items\<close>, \<open>find\<close> and the loop\<close>

lemma eat_items_loop_eaten:
  "eaten \<noteq> [] \<Longrightarrow> endswith (last eaten) end_char \<Longrightarrow>
   \<forall>c \<in> set (butlast eaten). \<not> endswith c end_char \<Longrightarrow>
   eat_items_loop value (eaten @ rest) chunks end_char replace_char
     = Inr (chunks @ map (\<lambda>c. str_replace_blank c replace_char) eaten, rest)"
proof (induction eaten arbitrary: chunks)
  case Nil
  then show ?case by simp
next
  case (Cons c cs)
  then show ?case by (cases cs) auto
qed

lemma eat_items_loop_exhausted:
  "\<forall>c \<in> set iter_parts. \<not> endswith c end_char \<Longrightarrow>
   eat_items_loop value iter_parts chunks end_char replace_char = Inl (ValueError value)"
  by (induction iter_parts arbitrary: chunks) auto

lemma eat_items_loop_Inl:
  "eat_items_loop value iter_parts chunks end_char replace_char = Inl e \<Longrightarrow> e = ValueError value"
  by (induction iter_parts arbitrary: chunks) (auto simp: Let_def split: if_splits)

lemma eat_items_Inl:
  "eat_items value iter_parts part end_char replace_char = Inl e \<Longrightarrow> e = ValueError value"
  by (auto simp: eat_items_def split: sum.splits dest: eat_items_loop_Inl)

lemma eat_items_exhausted:
  "\<forall>c \<in> set iter_parts. \<not> endswith c end_char \<Longrightarrow>
   eat_items value iter_parts part end_char replace_char = Inl (ValueError value)"
  by (simp add: eat_items_def eat_items_loop_exhausted)

lemma eat_items_eaten:
  "eaten \<noteq> [] \<Longrightarrow> endswith (last eaten) end_char \<Longrightarrow>
   \<forall>c \<in> set (butlast eaten). \<not> endswith c end_char \<Longrightarrow>
   eat_items value (eaten @ rest) part end_char replace_char
     = Inr (str_join '','' (map (\<lambda>c. str_replace_blank c replace_char) (part # eaten)), rest)"
  by (simp add: eat_items_def eat_items_loop_eaten)

lemma split_parts_kept:
  "\<forall>p \<in> set kept. find_quote_char_in_part p = None \<and> str_find p ''=['' < 0 \<Longrightarrow>
   split_parts value (kept @ parts) =
     (case split_parts value parts of Inl e \<Rightarrow> Inl e | Inr new_parts \<Rightarrow> Inr (kept @ new_parts))"
  by (induction kept) (auto simp: split_parts.simps split: sum.splits)

lemma str_find_ge: "- 1 \<le> str_find s sub"
  by (induction s) (auto simp: Let_def)

lemma str_find_found:
  "0 \<le> str_find s sub \<Longrightarrow> \<exists>post. s = take (nat (str_find s sub)) s @ sub @ post"
proof (induction s)
  case Nil
  then show ?case by (auto split: if_splits)
next
  case (Cons c cs)
  show ?case
  proof (cases "prefix sub (c # cs)")
    case True
    then show ?thesis by (auto simp: prefix_def)
  next
    case False
    with Cons.prems have 0: "0 \<le> str_find cs sub" and 1: "str_find (c # cs) sub = str_find cs sub + 1"
      by (auto simp: Let_def split: if_splits)
    from Cons.IH[OF 0] obtain post where "cs = take (nat (str_find cs sub)) cs @ sub @ post" ..
    then have "c # cs = take (nat (str_find cs sub + 1)) (c # cs) @ sub @ post"
      using 0 by (simp add: nat_add_distrib)
    with 1 show ?thesis by auto
  qed
qed

lemma str_find_absent: "\<not> set sub \<subseteq> set s \<Longrightarrow> str_find s sub = - 1"
proof -
  assume a: "\<not> set sub \<subseteq> set s"
  have "\<not> 0 \<le> str_find s sub"
  proof
    assume "0 \<le> str_find s sub"
    from str_find_found[OF this] obtain post where "s = take (nat (str_find s sub)) s @ sub @ post" ..
    then have "set s = set (take (nat (str_find s sub)) s @ sub @ post)" by simp
    then have "set sub \<subseteq> set s" by auto
    with a show False by simp
  qed
  with str_find_ge[of s sub] show ?thesis by simp
qed

section \<open>Facts about the reader\<close>

text \<open>The characters of a field are characters of the input, or the newline an escape at the end of a line stands for.\<close>

lemma reader_chars_step:
  "parse_process_char r c = Some r' \<Longrightarrow>
     reader_chars r' \<subseteq> reader_chars r \<union> (case c of None \<Rightarrow> {newline} | Some x \<Rightarrow> {x})"
  by (cases "self_state r")
     (auto simp: reader_chars_def csv_defs split: if_splits option.splits)

lemma reader_chars_line:
  "process_line r l = Some r' \<Longrightarrow> reader_chars r' \<subseteq> reader_chars r \<union> set l"
proof (induction l arbitrary: r)
  case Nil
  then show ?case by simp
next
  case (Cons c cs)
  then obtain r1 where 1: "parse_process_char r (Some c) = Some r1"
    and 2: "process_line r1 cs = Some r'"
    by (auto split: if_splits option.splits)
  from reader_chars_step[OF 1] Cons.IH[OF 2] show ?case by auto
qed

lemma reader_rows_chars:
  "reader_rows r ls = Inr rows \<Longrightarrow> row \<in> set rows \<Longrightarrow> p \<in> set row \<Longrightarrow>
     set p \<subseteq> reader_chars r \<union> set (concat ls) \<union> {newline}"
proof (induction ls arbitrary: r rows)
  case Nil
  then show ?case
    by (auto simp: reader_chars_def parse_save_field_def split: if_splits)
next
  case (Cons l ls)
  from Cons.prems(1) obtain r1 r2 where 1: "process_line r l = Some r1"
    and 2: "parse_process_char r1 None = Some r2"
    by (auto split: option.splits)
  from reader_chars_line[OF 1] reader_chars_step[OF 2]
  have sub: "reader_chars r2 \<subseteq> reader_chars r \<union> set l \<union> {newline}" by auto
  show ?case
  proof (cases "self_state r2 = START_RECORD")
    case True
    with Cons.prems(1) 1 2 obtain rows' where
      rows: "reader_rows parse_reset ls = Inr rows'" "rows = self_fields r2 # rows'"
      by (auto split: sum.splits)
    show ?thesis
    proof (cases "row \<in> set rows'")
      case True
      from Cons.IH[OF rows(1) True Cons.prems(3)] show ?thesis
        by (auto simp: reader_chars_def parse_reset_def)
    next
      case False
      with rows Cons.prems have "p \<in> set (self_fields r2)" by auto
      then have "set p \<subseteq> reader_chars r2" by (auto simp: reader_chars_def)
      with sub show ?thesis by auto
    qed
  next
    case False
    with Cons.prems(1) 1 2 have "reader_rows r2 ls = Inr rows" by simp
    from Cons.IH[OF this Cons.prems(2,3)] sub show ?thesis by auto
  qed
qed

lemma csv_first_row_chars:
  "csv_first_row value = Inr parts \<Longrightarrow> p \<in> set parts \<Longrightarrow> set p \<subseteq> set value \<union> {newline}"
  using reader_rows_chars[of parse_reset "string_lines value" _ parts p]
  by (auto simp: csv_first_row_def csv_reader_def concat_string_lines reader_chars_def
      parse_reset_def split: sum.splits list.splits)

text \<open>
  A non-empty text gives at least one row, so \<open>[0]\<close> fails on the empty text only.
\<close>

lemma crnl_field_step:
  "parse_process_char r c = Some r' \<Longrightarrow> crnl_field r \<Longrightarrow> crnl_field r'"
  by (cases "self_state r")
     (auto simp: crnl_field_def csv_defs split: if_splits option.splits)

lemma crnl_field_line:
  "process_line r l = Some r' \<Longrightarrow> crnl_field r \<Longrightarrow> crnl_field r'"
proof (induction l arbitrary: r)
  case Nil
  then show ?case by simp
next
  case (Cons c cs)
  then obtain r1 where 1: "parse_process_char r (Some c) = Some r1"
    and 2: "process_line r1 cs = Some r'"
    by (auto split: if_splits option.splits)
  from Cons.IH[OF 2 crnl_field_step[OF 1 Cons.prems(2)]] show ?case .
qed

lemma eol_row_open:
  "parse_process_char r None = Some r' \<Longrightarrow> crnl_field r \<Longrightarrow>
     self_state r' = START_RECORD \<or> row_open r'"
  by (cases "self_state r")
     (auto simp: crnl_field_def row_open_def csv_defs split: if_splits option.splits)

lemma reader_rows_nonempty:
  "reader_rows r (l # ls) = Inr rows \<Longrightarrow> crnl_field r \<Longrightarrow> rows \<noteq> []"
proof (induction ls arbitrary: r l)
  case Nil
  from Nil.prems(1) obtain r1 r2 where 1: "process_line r l = Some r1"
    and 2: "parse_process_char r1 None = Some r2"
    by (auto split: option.splits)
  from eol_row_open[OF 2 crnl_field_line[OF 1 Nil.prems(2)]] Nil.prems(1) 1 2
  show ?case by (auto simp: row_open_def split: if_splits)
next
  case (Cons l' ls)
  from Cons.prems(1) obtain r1 r2 where 1: "process_line r l = Some r1"
    and 2: "parse_process_char r1 None = Some r2"
    by (auto split: option.splits)
  have c2: "crnl_field r2" using crnl_field_step[OF 2 crnl_field_line[OF 1 Cons.prems(2)]] .
  show ?case
  proof (cases "self_state r2 = START_RECORD")
    case True
    with Cons.prems(1) 1 2 show ?thesis by (auto split: sum.splits)
  next
    case False
    with Cons.prems(1) 1 2 have "reader_rows r2 (l' # ls) = Inr rows" by simp
    from Cons.IH[OF this c2] show ?thesis .
  qed
qed

lemma string_lines_nonempty: "s \<noteq> [] \<Longrightarrow> string_lines s \<noteq> []"
  by (cases s) (auto split: list.splits)

lemma reader_rows_error: "reader_rows r ls = Inl e \<Longrightarrow> e = csv_Error"
  by (induction ls arbitrary: r) (auto split: option.splits if_splits sum.splits)

lemma csv_first_row_no_IndexError:
  assumes "value \<noteq> []"
  shows "csv_first_row value \<noteq> Inl IndexError"
proof
  assume a: "csv_first_row value = Inl IndexError"
  from assms obtain l ls where ls: "string_lines value = l # ls"
    using string_lines_nonempty[of "value"] by (cases "string_lines value") auto
  have c: "crnl_field parse_reset" by (simp add: crnl_field_def parse_reset_def)
  show False
  proof (cases "csv_reader value")
    case (Inl e)
    with reader_rows_error[of parse_reset "string_lines value" e] a show False
      by (simp add: csv_first_row_def csv_reader_def)
  next
    case (Inr rows)
    with a have "rows = []" by (auto simp: csv_first_row_def split: list.splits)
    with Inr reader_rows_nonempty[of parse_reset l ls rows] ls c show False
      by (simp add: csv_reader_def)
  qed
qed

lemma csv_first_row_error:
  "csv_first_row value = Inl e \<Longrightarrow> e = csv_Error \<or> e = IndexError"
  by (auto simp: csv_first_row_def csv_reader_def split: sum.splits list.splits dest: reader_rows_error)

section \<open>Facts about the loop over the rough tokens\<close>

lemma find_quote_char_in_part_Some:
  "find_quote_char_in_part part = Some q \<Longrightarrow> (q = dquote \<or> q = squote) \<and> q \<in> set part"
  by (auto simp: find_quote_char_in_part_def Let_def str_find_char split: if_splits)

lemma split_on_commas_general:
  "dquote \<in> set value \<or> squote \<in> set value \<or> CHR ''['' \<in> set value \<or> CHR '']'' \<in> set value
     \<Longrightarrow> split_on_commas value = split_with_quotes value"
  by (auto simp: split_on_commas_def)

lemma split_with_quotes_parts:
  "csv_first_row value = Inr parts \<Longrightarrow> split_with_quotes value = split_parts value parts"
  by (simp add: split_with_quotes.simps)

lemma split_parts_unclosed_list:
  assumes "0 \<le> str_find part ''=[''"
    and "case find_quote_char_in_part part of None \<Rightarrow> True
         | Some q \<Rightarrow> str_find part ''=['' < str_find part [q]"
    and "CHR '']'' \<in> set value" and "CHR '']'' \<notin> set part"
    and "\<forall>p \<in> set iter_parts. \<not> endswith p CHR '']''"
  shows "split_parts value (part # iter_parts) = Inl (ValueError value)"
proof -
  have s: "str_find value '']'' \<noteq> - 1"
    using assms(3) by (simp add: str_find_char)
  have e: "eat_items value iter_parts part CHR '']'' None = Inl (ValueError value)"
    using assms(5) by (rule eat_items_exhausted)
  show ?thesis
    using assms(1,2,4) s e by (subst split_parts.simps) (simp add: Let_def)
qed

lemma split_parts_no_bracket:
  assumes "CHR '']'' \<notin> set value" and "find_quote_char_in_part part = None"
  shows "split_parts value (part # iter_parts) =
     (case split_parts value iter_parts of Inl e \<Rightarrow> Inl e
      | Inr new_parts \<Rightarrow> Inr (part # new_parts))"
proof -
  have s: "str_find value '']'' = - 1"
    using assms(1) by (simp add: str_find_char)
  show ?thesis
    using assms(2) s by (subst split_parts.simps) (simp add: Let_def)
qed

lemma eat_items_append:
  assumes "eat_items value iter_parts part end_char replace_char = Inr (new_chunk, rest)"
  shows "eat_items value (iter_parts @ others) part end_char replace_char
           = Inr (new_chunk, rest @ others)"
proof -
  from assms obtain chunks where
    l: "eat_items_loop value iter_parts [str_replace_blank part replace_char] end_char replace_char
          = Inr (chunks, rest)"
    and c: "new_chunk = str_join '','' chunks"
    by (auto simp: eat_items_def split: sum.splits)
  from eat_items_loop_Inr[OF l] obtain eaten where
    e: "iter_parts = eaten @ rest" "eaten \<noteq> []"
      "chunks = [str_replace_blank part replace_char]
         @ map (\<lambda>c. str_replace_blank c replace_char) eaten"
      "endswith (last eaten) end_char" "\<forall>c \<in> set (butlast eaten). \<not> endswith c end_char"
    by blast
  from eat_items_eaten[OF e(2,4,5), of "value" "rest @ others" part replace_char] e(1,3) c
  show ?thesis by simp
qed

lemma eat_items_chunk:
  assumes "eat_items value iter_parts part end_char replace_char = Inr (new_chunk, rest)"
  shows "\<exists>eaten. iter_parts = eaten @ rest \<and> eaten \<noteq> [] \<and>
           new_chunk = str_join '','' (map (\<lambda>c. str_replace_blank c replace_char) (part # eaten))"
proof -
  from assms obtain chunks where
    l: "eat_items_loop value iter_parts [str_replace_blank part replace_char] end_char replace_char
          = Inr (chunks, rest)"
    and c: "new_chunk = str_join '','' chunks"
    by (auto simp: eat_items_def split: sum.splits)
  from eat_items_loop_Inr[OF l] c show ?thesis by auto
qed

text \<open>The loop over the tokens of \<open>before\<close> does the same when more tokens follow.\<close>

lemma split_parts_append:
  "split_parts value before = Inr first_parts \<Longrightarrow>
   split_parts value (before @ others) =
     (case split_parts value others of Inl e \<Rightarrow> Inl e | Inr r \<Rightarrow> Inr (first_parts @ r))"
proof (induction "length before" arbitrary: before first_parts rule: less_induct)
  case less
  show ?case
  proof (cases before)
    case Nil
    with less.prems show ?thesis by (simp split: sum.splits)
  next
    case (Cons part iter_parts)
    have ih: "split_parts value (ps @ others) =
        (case split_parts value others of Inl e \<Rightarrow> Inl e | Inr r \<Rightarrow> Inr (d @ r))"
      if "split_parts value ps = Inr d" "length ps \<le> length iter_parts" for ps d
      using less.hyps[of ps d] that Cons by simp
    let ?q = "find_quote_char_in_part part"
    let ?ls = "str_find part ''=[''"
    show ?thesis
    proof (cases "?ls \<ge> 0 \<and> str_find value '']'' \<noteq> - 1 \<and>
           (case ?q of None \<Rightarrow> True | Some q \<Rightarrow> str_find part [q] > ?ls)")
      case True
      show ?thesis
      proof (cases "CHR '']'' \<in> set part")
        case c: True
        from less.prems Cons True c obtain items new_parts where
          1: "split_with_quotes (drop (nat (?ls + 2)) (butlast part)) = Inr items"
          and 2: "split_parts value iter_parts = Inr new_parts"
          and 3: "first_parts = (take (nat (?ls + 1)) part @ str_join '','' items) # new_parts"
          by (auto simp: split_parts.simps Let_def split: sum.splits)
        from ih[OF 2] have "split_parts value (iter_parts @ others) =
           (case split_parts value others of Inl e \<Rightarrow> Inl e | Inr r \<Rightarrow> Inr (new_parts @ r))"
          by simp
        with True c 1 3 Cons show ?thesis
          by (auto simp: split_parts.simps Let_def split: sum.splits)
      next
        case c: False
        from less.prems Cons True c obtain new_chunk rest items new_parts where
          0: "eat_items value iter_parts part CHR '']'' None = Inr (new_chunk, rest)"
          and 1: "split_with_quotes (drop (nat (?ls + 2)) (butlast new_chunk)) = Inr items"
          and 2: "split_parts value rest = Inr new_parts"
          and 3: "first_parts = (take (nat (?ls + 1)) new_chunk @ str_join '','' items) # new_parts"
          by (auto simp: split_parts.simps Let_def split: sum.splits)
        from eat_items_chunk[OF 0] have "length rest \<le> length iter_parts" by auto
        from ih[OF 2 this] have "split_parts value (rest @ others) =
           (case split_parts value others of Inl e \<Rightarrow> Inl e | Inr r \<Rightarrow> Inr (new_parts @ r))" .
        with True c eat_items_append[OF 0, of others] 1 3 Cons show ?thesis
          by (auto simp: split_parts.simps Let_def split: sum.splits)
      qed
    next
      case False
      show ?thesis
      proof (cases ?q)
        case None
        from less.prems Cons False None obtain new_parts where
          2: "split_parts value iter_parts = Inr new_parts"
          and 3: "first_parts = part # new_parts"
          by (auto simp: split_parts.simps Let_def split: sum.splits)
        from ih[OF 2] have "split_parts value (iter_parts @ others) =
           (case split_parts value others of Inl e \<Rightarrow> Inl e | Inr r \<Rightarrow> Inr (new_parts @ r))"
          by simp
        with False None 3 Cons show ?thesis
          by (auto simp: split_parts.simps Let_def split: sum.splits)
      next
        case (Some q)
        show ?thesis
        proof (cases "count_list part q = 2")
          case c: True
          from less.prems Cons False Some c obtain new_parts where
            2: "split_parts value iter_parts = Inr new_parts"
            and 3: "first_parts = str_replace_blank part (Some q) # new_parts"
            by (auto simp: split_parts.simps Let_def split: sum.splits)
          from ih[OF 2] have "split_parts value (iter_parts @ others) =
             (case split_parts value others of Inl e \<Rightarrow> Inl e | Inr r \<Rightarrow> Inr (new_parts @ r))"
            by simp
          with False Some c 3 Cons show ?thesis
            by (auto simp: split_parts.simps Let_def split: sum.splits)
        next
          case c: False
          from less.prems Cons False Some c obtain new_chunk rest new_parts where
            0: "eat_items value iter_parts part q (Some q) = Inr (new_chunk, rest)"
            and 2: "split_parts value rest = Inr new_parts"
            and 3: "first_parts = new_chunk # new_parts"
            by (auto simp: split_parts.simps Let_def split: sum.splits)
          from eat_items_chunk[OF 0] have "length rest \<le> length iter_parts" by auto
          from ih[OF 2 this] have "split_parts value (rest @ others) =
             (case split_parts value others of Inl e \<Rightarrow> Inl e | Inr r \<Rightarrow> Inr (new_parts @ r))" .
          with False Some c eat_items_append[OF 0, of others] 3 Cons show ?thesis
            by (auto simp: split_parts.simps Let_def split: sum.splits)
        qed
      qed
    qed
  qed
qed

lemma split_on_commas_reach:
  assumes "csv_first_row value = Inr (before @ rest)"
    and "split_parts value before = Inr first_parts"
    and "dquote \<in> set value \<or> squote \<in> set value \<or> CHR ''['' \<in> set value \<or> CHR '']'' \<in> set value"
  shows "split_on_commas value =
     (case split_parts value rest of Inl e \<Rightarrow> Inl e | Inr r \<Rightarrow> Inr (first_parts @ r))"
  using split_on_commas_general[OF assms(3)] split_with_quotes_parts[OF assms(1)]
    split_parts_append[OF assms(2), of rest]
  by simp

lemma set_str_join: "set (str_join '','' xs) \<subseteq> \<Union> (set ` set xs) \<union> {CHR '',''}"
  by (induction "'',''" xs rule: str_join.induct) auto

lemma split_parts_list_chunk:
  assumes find: "str_find part ''=['' = int (length prfx)"
    and close: "CHR '']'' \<in> set value"
    and quote: "case find_quote_char_in_part part of None \<Rightarrow> True
                | Some q \<Rightarrow> int (length prfx) < str_find part [q]"
    and eaten: "if CHR '']'' \<in> set part then eaten = []
                else eaten \<noteq> [] \<and> endswith (last eaten) CHR '']'' \<and>
                     (\<forall>c \<in> set (butlast eaten). \<not> endswith c CHR '']'')"
    and chunk: "str_join '','' (part # eaten) = prfx @ ''=['' @ inner @ '']''"
  shows "split_parts value (part # eaten @ iter_parts) =
     (case split_with_quotes inner of
        Inl e \<Rightarrow> Inl e
      | Inr list_items \<Rightarrow>
          (case split_parts value iter_parts of
             Inl e \<Rightarrow> Inl e
           | Inr new_parts \<Rightarrow> Inr ((prfx @ ''='' @ str_join '','' list_items) # new_parts)))"
proof -
  let ?chunk = "prfx @ ''=['' @ inner @ '']''"
  have c: "(if CHR '']'' \<in> set part then Inr (part, eaten @ iter_parts)
            else eat_items value (eaten @ iter_parts) part CHR '']'' None) = Inr (?chunk, iter_parts)"
  proof (cases "CHR '']'' \<in> set part")
    case True
    with eaten chunk show ?thesis by simp
  next
    case False
    with eaten have e: "eaten \<noteq> []" "endswith (last eaten) CHR '']''"
      "\<forall>c \<in> set (butlast eaten). \<not> endswith c CHR '']''" by simp_all
    from eat_items_eaten[OF e, of "value" iter_parts part None] chunk False
    show ?thesis by simp
  qed
  have d: "drop (nat (int (length prfx) + 2)) (butlast ?chunk) = inner"
    by (simp add: butlast_append nat_add_distrib)
  have t: "take (nat (int (length prfx) + 1)) ?chunk = prfx @ ''=''"
    by (simp add: nat_add_distrib)
  have s: "str_find value '']'' \<noteq> - 1"
    using close by (simp add: str_find_char)
  have q: "(case find_quote_char_in_part part of None \<Rightarrow> True
            | Some q \<Rightarrow> int (length prfx) < str_find part [q]) = True"
    using quote by simp
  show ?thesis
    by (subst split_parts.simps)
       (simp only: Let_def find c d t s q sum.case prod.case, simp split: sum.splits)
qed

lemma split_parts_quote_chunk:
  assumes quote: "find_quote_char_in_part part = Some q"
    and nolist: "\<not> (0 \<le> str_find part ''=['' \<and> CHR '']'' \<in> set value \<and>
                   str_find part ''=['' < str_find part [q])"
    and eaten: "if count_list part q = 2 then eaten = []
                else eaten \<noteq> [] \<and> endswith (last eaten) q \<and>
                     (\<forall>c \<in> set (butlast eaten). \<not> endswith c q)"
  shows "split_parts value (part # eaten @ iter_parts) =
     (case split_parts value iter_parts of
        Inl e \<Rightarrow> Inl e
      | Inr new_parts \<Rightarrow>
          Inr (str_join '','' (map (\<lambda>c. str_replace_blank c (Some q)) (part # eaten))
               # new_parts))"
proof (cases "count_list part q = 2")
  case True
  with eaten have "eaten = []" by simp
  with True quote nolist show ?thesis
    by (subst split_parts.simps) (auto simp: Let_def str_find_char split: if_splits sum.splits)
next
  case False
  with eaten have e: "eaten \<noteq> []" "endswith (last eaten) q"
    "\<forall>c \<in> set (butlast eaten). \<not> endswith c q" by simp_all
  from eat_items_eaten[OF e, of "value" iter_parts part "Some q"]
  have "eat_items value (eaten @ iter_parts) part q (Some q) =
     Inr (str_join '','' (map (\<lambda>c. str_replace_blank c (Some q)) (part # eaten)), iter_parts)" .
  with False quote nolist show ?thesis
    by (subst split_parts.simps) (auto simp: Let_def str_find_char split: if_splits sum.splits)
qed

lemma split_parts_error:
  "split_parts value parts = Inl e \<Longrightarrow>
     e = ValueError value \<or>
     (\<exists>before part eaten rest. parts = before @ part # eaten @ rest \<and>
        0 \<le> str_find part ''=['' \<and> CHR '']'' \<in> set value \<and>
        (case find_quote_char_in_part part of None \<Rightarrow> True
         | Some q \<Rightarrow> str_find part ''=['' < str_find part [q]) \<and>
        split_with_quotes (drop (nat (str_find part ''=['' + 2))
                             (butlast (str_join '','' (part # eaten)))) = Inl e)"
proof (induction "length parts" arbitrary: parts rule: less_induct)
  case less
  let ?nested = "\<lambda>ps. \<exists>before part eaten rest. ps = before @ part # eaten @ rest \<and>
        0 \<le> str_find part ''=['' \<and> CHR '']'' \<in> set value \<and>
        (case find_quote_char_in_part part of None \<Rightarrow> True
         | Some q \<Rightarrow> str_find part ''=['' < str_find part [q]) \<and>
        split_with_quotes (drop (nat (str_find part ''=['' + 2))
                             (butlast (str_join '','' (part # eaten)))) = Inl e"
  show ?case
  proof (cases parts)
    case Nil
    with less.prems show ?thesis by simp
  next
    case (Cons part iter_parts)
    have ih: "e = ValueError value \<or> ?nested parts"
      if "split_parts value ps = Inl e" "iter_parts = skipped @ ps" for ps skipped
    proof -
      from that(2) Cons have "length ps < length parts" by simp
      from less.hyps[OF this that(1)] show ?thesis
      proof
        assume "e = ValueError value"
        then show ?thesis ..
      next
        assume "?nested ps"
        then obtain b p ea r where "ps = b @ p # ea @ r"
          "0 \<le> str_find p ''=['' \<and> CHR '']'' \<in> set value \<and>
           (case find_quote_char_in_part p of None \<Rightarrow> True
            | Some q \<Rightarrow> str_find p ''=['' < str_find p [q])"
          "split_with_quotes (drop (nat (str_find p ''=['' + 2))
                             (butlast (str_join '','' (p # ea)))) = Inl e" by blast
        with that(2) Cons have "parts = (part # skipped @ b) @ p # ea @ r" by simp
        with \<open>0 \<le> str_find p ''=['' \<and> CHR '']'' \<in> set value \<and>
           (case find_quote_char_in_part p of None \<Rightarrow> True
            | Some q \<Rightarrow> str_find p ''=['' < str_find p [q])\<close>
          \<open>split_with_quotes (drop (nat (str_find p ''=['' + 2))
                             (butlast (str_join '','' (p # ea)))) = Inl e\<close>
        have "?nested parts" by blast
        then show ?thesis ..
      qed
    qed
    let ?q = "find_quote_char_in_part part"
    let ?ls = "str_find part ''=[''"
    show ?thesis
    proof (cases "?ls \<ge> 0 \<and> str_find value '']'' \<noteq> - 1 \<and>
           (case ?q of None \<Rightarrow> True | Some q \<Rightarrow> str_find part [q] > ?ls)")
      case True
      have nested_here: "e = ValueError value \<or> ?nested parts"
        if "split_with_quotes (drop (nat (?ls + 2)) (butlast (str_join '','' (part # ea)))) = Inl e"
          "iter_parts = ea @ r" for ea r
      proof -
        from that(2) Cons have "parts = [] @ part # ea @ r" by simp
        moreover from True have "CHR '']'' \<in> set value"
          by (auto simp: str_find_char split: if_splits)
        ultimately have "?nested parts" using True that(1) by blast
        then show ?thesis ..
      qed
      show ?thesis
      proof (cases "CHR '']'' \<in> set part")
        case c: True
        from less.prems Cons True c have
          "split_with_quotes (drop (nat (?ls + 2)) (butlast part)) = Inl e \<or>
           split_parts value iter_parts = Inl e"
          by (auto simp: split_parts.simps Let_def split: sum.splits)
        then show ?thesis
        proof
          assume "split_with_quotes (drop (nat (?ls + 2)) (butlast part)) = Inl e"
          then show ?thesis using nested_here[of "[]" iter_parts] by simp
        next
          assume "split_parts value iter_parts = Inl e"
          then show ?thesis using ih[of iter_parts "[]"] by simp
        qed
      next
        case c: False
        show ?thesis
        proof (cases "eat_items value iter_parts part CHR '']'' None")
          case (Inl e')
          with less.prems Cons True c have "e' = e"
            by (auto simp: split_parts.simps Let_def split: sum.splits)
          with eat_items_Inl[OF Inl] show ?thesis by simp
        next
          case (Inr pr)
          obtain new_chunk ps where pr: "pr = (new_chunk, ps)" by (cases pr)
          from eat_items_chunk[of "value" iter_parts part "CHR '']''" None new_chunk ps] Inr pr
          obtain ea where ea: "iter_parts = ea @ ps" "new_chunk = str_join '','' (part # ea)"
            by auto
          from less.prems Cons True c Inr pr have
            "split_with_quotes (drop (nat (?ls + 2)) (butlast new_chunk)) = Inl e \<or>
             split_parts value ps = Inl e"
            by (auto simp: split_parts.simps Let_def split: sum.splits)
          then show ?thesis
          proof
            assume "split_with_quotes (drop (nat (?ls + 2)) (butlast new_chunk)) = Inl e"
            with ea show ?thesis using nested_here[of ea ps] by simp
          next
            assume "split_parts value ps = Inl e"
            then show ?thesis using ih[of ps ea] ea by simp
          qed
        qed
      qed
    next
      case False
      show ?thesis
      proof (cases ?q)
        case None
        with less.prems Cons False have "split_parts value iter_parts = Inl e"
          by (auto simp: split_parts.simps Let_def split: sum.splits)
        then show ?thesis using ih[of iter_parts "[]"] by simp
      next
        case (Some q)
        show ?thesis
        proof (cases "count_list part q = 2")
          case c: True
          with less.prems Cons False Some have "split_parts value iter_parts = Inl e"
            by (auto simp: split_parts.simps Let_def split: sum.splits)
          then show ?thesis using ih[of iter_parts "[]"] by simp
        next
          case c: False
          show ?thesis
          proof (cases "eat_items value iter_parts part q (Some q)")
            case (Inl e')
            with less.prems Cons False Some c have "e' = e"
              by (auto simp: split_parts.simps Let_def split: sum.splits)
            with eat_items_Inl[OF Inl] show ?thesis by simp
          next
            case (Inr pr)
            obtain new_chunk ps where pr: "pr = (new_chunk, ps)" by (cases pr)
            from eat_items_chunk[of "value" iter_parts part q "Some q" new_chunk ps] Inr pr
            obtain ea where ea: "iter_parts = ea @ ps" by auto
            from less.prems Cons False Some c Inr pr have "split_parts value ps = Inl e"
              by (auto simp: split_parts.simps Let_def split: sum.splits)
            then show ?thesis using ih[of ps ea] ea by simp
          qed
        qed
      qed
    qed
  qed
qed

section \<open>Bracketed lists\<close>

text \<open>
  C2, as the code has it. The claim is that every token with the list marker followed by
  a closing bracket is split and spliced. \<open>list_token_counterexample\<close> below has the
  token \<open>'a'=[1]\<close>, which the test on the quote character keeps out of the list branch
  (the brackets stay), and the token \<open>k=[1]x\<close>, whose last character is not the bracket.
  What the list branch does: when the loop reaches a rough token (the tokens before it
  are split without error) that holds the marker with no quote character before it, the
  chunk is the token itself when it holds a closing bracket, and otherwise the token
  joined by commas with the following rough tokens up to the first that ends with the
  bracket. When the chunk reads \<open>prfx=[inner]\<close>, \<open>inner\<close> is split by a nested call and
  the result holds the one token \<open>prfx=item1,item2,...\<close>, the items joined with commas;
  an error of the nested call is the error of the whole split. In particular
  \<open>key=[1,2,3]\<close> gives the one token \<open>key=1,2,3\<close>.
\<close>

theorem list_token_spliced:
  "(csv_first_row value = Inr (before @ part # eaten @ iter_parts) \<and>
    split_parts value before = Inr first_parts \<and>
    str_find part ''=['' = int (length prfx) \<and>
    (case find_quote_char_in_part part of None \<Rightarrow> True
     | Some q \<Rightarrow> int (length prfx) < str_find part [q]) \<and>
    (if CHR '']'' \<in> set part then eaten = []
     else eaten \<noteq> [] \<and> endswith (last eaten) CHR '']'' \<and>
          (\<forall>c \<in> set (butlast eaten). \<not> endswith c CHR '']'')) \<and>
    str_join '','' (part # eaten) = prfx @ ''=['' @ inner @ '']''
    \<longrightarrow> split_on_commas value =
          (case split_with_quotes inner of
             Inl e \<Rightarrow> Inl e
           | Inr list_items \<Rightarrow>
               (case split_parts value iter_parts of
                  Inl e \<Rightarrow> Inl e
                | Inr new_parts \<Rightarrow>
                    Inr (first_parts @ (prfx @ ''='' @ str_join '','' list_items) # new_parts)))) \<and>
   split_on_commas ''key=[1,2,3]'' = Inr [''key=1,2,3'']"
proof (intro conjI impI)
  assume a: "csv_first_row value = Inr (before @ part # eaten @ iter_parts) \<and>
    split_parts value before = Inr first_parts \<and>
    str_find part ''=['' = int (length prfx) \<and>
    (case find_quote_char_in_part part of None \<Rightarrow> True
     | Some q \<Rightarrow> int (length prfx) < str_find part [q]) \<and>
    (if CHR '']'' \<in> set part then eaten = []
     else eaten \<noteq> [] \<and> endswith (last eaten) CHR '']'' \<and>
          (\<forall>c \<in> set (butlast eaten). \<not> endswith c CHR '']'')) \<and>
    str_join '','' (part # eaten) = prfx @ ''=['' @ inner @ '']''"
  then have rows: "csv_first_row value = Inr (before @ part # eaten @ iter_parts)"
    and reach: "split_parts value before = Inr first_parts"
    and chunk: "str_join '','' (part # eaten) = prfx @ ''=['' @ inner @ '']''"
    by simp_all
  from chunk have "CHR '']'' \<in> set (str_join '','' (part # eaten))" by simp
  with set_str_join[of "part # eaten"] obtain p where
    p: "p \<in> set (part # eaten)" "CHR '']'' \<in> set p" by auto
  from p(1) have "p \<in> set (before @ part # eaten @ iter_parts)" by auto
  from csv_first_row_chars[OF rows this] p(2) have close: "CHR '']'' \<in> set value" by auto
  from a close have "split_parts value (part # eaten @ iter_parts) =
     (case split_with_quotes inner of
        Inl e \<Rightarrow> Inl e
      | Inr list_items \<Rightarrow>
          (case split_parts value iter_parts of
             Inl e \<Rightarrow> Inl e
           | Inr new_parts \<Rightarrow> Inr ((prfx @ ''='' @ str_join '','' list_items) # new_parts)))"
    by (intro split_parts_list_chunk) simp_all
  with split_on_commas_reach[OF rows reach] close
  show "split_on_commas value =
          (case split_with_quotes inner of
             Inl e \<Rightarrow> Inl e
           | Inr list_items \<Rightarrow>
               (case split_parts value iter_parts of
                  Inl e \<Rightarrow> Inl e
                | Inr new_parts \<Rightarrow>
                    Inr (first_parts @ (prfx @ ''='' @ str_join '','' list_items) # new_parts)))"
    by (simp split: sum.splits)
next
  show "split_on_commas ''key=[1,2,3]'' = Inr [''key=1,2,3'']"
    by (simp add: split_eval csv_eval)
qed

theorem list_token_spliced_witness:
  "csv_first_row ''x=1,key=[1,2,3],y'' = Inr ([''x=1''] @ ''key=[1'' # [''2'', ''3]''] @ [''y'']) \<and>
   split_parts ''x=1,key=[1,2,3],y'' [''x=1''] = Inr [''x=1''] \<and>
   str_find ''key=[1'' ''=['' = int (length ''key'') \<and>
   str_join '','' (''key=[1'' # [''2'', ''3]'']) = ''key'' @ ''=['' @ ''1,2,3'' @ '']'' \<and>
   split_with_quotes ''1,2,3'' = Inr [''1'', ''2'', ''3''] \<and>
   split_on_commas ''x=1,key=[1,2,3],y'' = Inr [''x=1'', ''key=1,2,3'', ''y'']"
proof -
  have 1: "csv_first_row ''x=1,key=[1,2,3],y''
             = Inr ([''x=1''] @ ''key=[1'' # [''2'', ''3]''] @ [''y''])"
    by (simp add: csv_eval)
  have 2: "split_parts ''x=1,key=[1,2,3],y'' [''x=1''] = Inr [''x=1'']"
    by (simp add: split_eval)
  have 3: "str_find ''key=[1'' ''=['' = int (length ''key'')" by simp
  have 4: "case find_quote_char_in_part ''key=[1'' of None \<Rightarrow> True
           | Some q \<Rightarrow> int (length ''key'') < str_find ''key=[1'' [q]"
    by (simp add: find_quote_char_in_part_def)
  have 5: "if CHR '']'' \<in> set ''key=[1'' then [''2'', ''3]''] = []
     else [''2'', ''3]''] \<noteq> [] \<and> endswith (last [''2'', ''3]'']) CHR '']'' \<and>
          (\<forall>c \<in> set (butlast [''2'', ''3]'']). \<not> endswith c CHR '']'')"
    by (simp add: endswith_def)
  have 6: "str_join '','' (''key=[1'' # [''2'', ''3]'']) = ''key'' @ ''=['' @ ''1,2,3'' @ '']''"
    by simp
  have 7: "split_with_quotes ''1,2,3'' = Inr [''1'', ''2'', ''3'']"
    by (simp add: split_eval csv_eval)
  have 8: "split_parts ''x=1,key=[1,2,3],y'' [''y''] = Inr [''y'']"
    by (simp add: split_eval)
  from list_token_spliced[of "''x=1,key=[1,2,3],y''" "[''x=1'']" "''key=[1''" "[''2'', ''3]'']"
      "[''y'']" "[''x=1'']" "''key''" "''1,2,3''"] 1 2 3 4 5 6
  have "split_on_commas ''x=1,key=[1,2,3],y'' =
          (case split_with_quotes ''1,2,3'' of
             Inl e \<Rightarrow> Inl e
           | Inr list_items \<Rightarrow>
               (case split_parts ''x=1,key=[1,2,3],y'' [''y''] of
                  Inl e \<Rightarrow> Inl e
                | Inr new_parts \<Rightarrow>
                    Inr ([''x=1''] @ (''key'' @ ''='' @ str_join '','' list_items) # new_parts)))"
    by blast
  with 7 8 have "split_on_commas ''x=1,key=[1,2,3],y'' = Inr [''x=1'', ''key=1,2,3'', ''y'']"
    by simp
  with 1 2 3 6 7 show ?thesis by simp
qed

text \<open>
  A quote character before the marker: the token is not a list and keeps its brackets.
  A closing bracket that is not the last character: the last character is cut off all
  the same.
\<close>

theorem list_token_counterexample:
  "split_on_commas (squote # ''a'' @ squote # ''=[1]'') = Inr [''a=[1]''] \<and>
   split_on_commas ''k=[1]x'' = Inr [''k=1]'']"
  by (simp add: split_eval csv_eval)

text \<open>
  C3, as the code has it. The claim is that every list opened and never closed is an
  error, \<open>key=[1,2\<close> among them; \<open>unclosed_list_counterexample\<close> below shows that
  input split into \<open>key=[1\<close> and \<open>2\<close>. The list branch is guarded by
  \<open>value.find(']') != -1\<close>: the error is raised when the input holds a closing bracket
  somewhere, the loop reaches a rough token (the tokens before it are split without
  error) that holds the marker, with no quote character before it, and no closing
  bracket, and no later rough token ends with the bracket; the error then carries the
  input. When the input holds no closing bracket at all, a token with the marker and
  without a quote character is kept unchanged.
\<close>

theorem unclosed_list:
  "(csv_first_row value = Inr (before @ part # iter_parts) \<and>
    split_parts value before = Inr first_parts \<and>
    0 \<le> str_find part ''=['' \<and>
    (case find_quote_char_in_part part of None \<Rightarrow> True
     | Some q \<Rightarrow> str_find part ''=['' < str_find part [q]) \<and>
    CHR '']'' \<in> set value \<and> CHR '']'' \<notin> set part \<and>
    (\<forall>p \<in> set iter_parts. \<not> endswith p CHR '']'')
    \<longrightarrow> split_on_commas value = Inl (ValueError value)) \<and>
   (csv_first_row value = Inr (before @ part # iter_parts) \<and>
    split_parts value before = Inr first_parts \<and>
    0 \<le> str_find part ''=['' \<and>
    CHR '']'' \<notin> set value \<and> find_quote_char_in_part part = None
    \<longrightarrow> split_on_commas value =
          (case split_parts value iter_parts of Inl e \<Rightarrow> Inl e
           | Inr new_parts \<Rightarrow> Inr (first_parts @ part # new_parts)))"
proof (intro conjI impI)
  assume a: "csv_first_row value = Inr (before @ part # iter_parts) \<and>
    split_parts value before = Inr first_parts \<and>
    0 \<le> str_find part ''=['' \<and>
    (case find_quote_char_in_part part of None \<Rightarrow> True
     | Some q \<Rightarrow> str_find part ''=['' < str_find part [q]) \<and>
    CHR '']'' \<in> set value \<and> CHR '']'' \<notin> set part \<and>
    (\<forall>p \<in> set iter_parts. \<not> endswith p CHR '']'')"
  then have rows: "csv_first_row value = Inr (before @ part # iter_parts)"
    and reach: "split_parts value before = Inr first_parts"
    and close: "CHR '']'' \<in> set value" by simp_all
  from a have "split_parts value (part # iter_parts) = Inl (ValueError value)"
    by (intro split_parts_unclosed_list) simp_all
  with split_on_commas_reach[OF rows reach] close
  show "split_on_commas value = Inl (ValueError value)" by simp
next
  assume a: "csv_first_row value = Inr (before @ part # iter_parts) \<and>
    split_parts value before = Inr first_parts \<and>
    0 \<le> str_find part ''=['' \<and>
    CHR '']'' \<notin> set value \<and> find_quote_char_in_part part = None"
  then have rows: "csv_first_row value = Inr (before @ part # iter_parts)"
    and reach: "split_parts value before = Inr first_parts"
    and find: "0 \<le> str_find part ''=[''" by simp_all
  from str_find_found[OF find] obtain post where
    "part = take (nat (str_find part ''=['')) part @ ''=['' @ post" ..
  then have "set part = set (take (nat (str_find part ''=['')) part @ ''=['' @ post)" by simp
  then have "CHR ''['' \<in> set part" by auto
  moreover have "part \<in> set (before @ part # iter_parts)" by simp
  ultimately have "CHR ''['' \<in> set value"
    using csv_first_row_chars[OF rows, of part] by auto
  moreover from a have "split_parts value (part # iter_parts) =
     (case split_parts value iter_parts of Inl e \<Rightarrow> Inl e
      | Inr new_parts \<Rightarrow> Inr (part # new_parts))"
    by (intro split_parts_no_bracket) simp_all
  ultimately show "split_on_commas value =
          (case split_parts value iter_parts of Inl e \<Rightarrow> Inl e
           | Inr new_parts \<Rightarrow> Inr (first_parts @ part # new_parts))"
    using split_on_commas_reach[OF rows reach] by (simp split: sum.splits)
qed

theorem unclosed_list_witness:
  "csv_first_row ''a=[1],k=[1,2]x'' = Inr ([''a=[1]''] @ ''k=[1'' # [''2]x'']) \<and>
   split_parts ''a=[1],k=[1,2]x'' [''a=[1]''] = Inr [''a=1''] \<and>
   0 \<le> str_find ''k=[1'' ''=['' \<and>
   CHR '']'' \<in> set ''a=[1],k=[1,2]x'' \<and> CHR '']'' \<notin> set ''k=[1'' \<and>
   \<not> endswith ''2]x'' CHR '']'' \<and>
   split_on_commas ''a=[1],k=[1,2]x'' = Inl (ValueError ''a=[1],k=[1,2]x'') \<and>
   csv_first_row ''key=[1,2'' = Inr ([] @ ''key=[1'' # [''2'']) \<and>
   CHR '']'' \<notin> set ''key=[1,2'' \<and> find_quote_char_in_part ''key=[1'' = None \<and>
   split_on_commas ''key=[1,2'' = Inr [''key=[1'', ''2'']"
proof -
  have 1: "csv_first_row ''a=[1],k=[1,2]x'' = Inr ([''a=[1]''] @ ''k=[1'' # [''2]x''])"
    by (simp add: csv_eval)
  have 2: "split_parts ''a=[1],k=[1,2]x'' [''a=[1]''] = Inr [''a=1'']"
    by (simp add: split_eval csv_eval)
  have 3: "0 \<le> str_find ''k=[1'' ''=[''" by simp
  have 4: "case find_quote_char_in_part ''k=[1'' of None \<Rightarrow> True
           | Some q \<Rightarrow> str_find ''k=[1'' ''=['' < str_find ''k=[1'' [q]"
    by (simp add: find_quote_char_in_part_def)
  have 5: "CHR '']'' \<in> set ''a=[1],k=[1,2]x''" "CHR '']'' \<notin> set ''k=[1''"
    "\<forall>p \<in> set [''2]x'']. \<not> endswith p CHR '']''"
    by (simp_all add: endswith_def)
  have 6: "csv_first_row ''key=[1,2'' = Inr ([] @ ''key=[1'' # [''2''])"
    by (simp add: csv_eval)
  have 7: "split_parts ''key=[1,2'' [] = Inr []" by simp
  have 8: "0 \<le> str_find ''key=[1'' ''=[''" by simp
  have 9: "CHR '']'' \<notin> set ''key=[1,2''" "find_quote_char_in_part ''key=[1'' = None"
    by (simp_all add: find_quote_char_in_part_def)
  have 10: "split_parts ''key=[1,2'' [''2''] = Inr [''2'']"
    by (simp add: split_eval)
  from unclosed_list[of "''a=[1],k=[1,2]x''" "[''a=[1]'']" "''k=[1''" "[''2]x'']" "[''a=1'']"]
    1 2 3 4 5
  have a: "split_on_commas ''a=[1],k=[1,2]x'' = Inl (ValueError ''a=[1],k=[1,2]x'')" by blast
  from unclosed_list[of "''key=[1,2''" "[]" "''key=[1''" "[''2'']" "[]"] 6 7 8 9
  have "split_on_commas ''key=[1,2'' =
          (case split_parts ''key=[1,2'' [''2''] of Inl e \<Rightarrow> Inl e
           | Inr new_parts \<Rightarrow> Inr ([] @ ''key=[1'' # new_parts))" by blast
  with 10 have b: "split_on_commas ''key=[1,2'' = Inr [''key=[1'', ''2'']" by simp
  from 1 2 3 5 6 9 a b show ?thesis by simp
qed

text \<open>The input of the claim: no closing bracket anywhere, so no list and no error.\<close>

theorem unclosed_list_counterexample:
  "split_on_commas ''key=[1,2'' = Inr [''key=[1'', ''2'']"
  by (simp add: split_eval csv_eval)

section \<open>Unclosed quotes\<close>

text \<open>
  C4. The claim is that every quote opened and never closed is an error. A double quote
  left open at the start of a token is not: the reader takes it as its own quote
  character and keeps the open field at the end of the input, so \<open>a,"b,c\<close> splits into
  \<open>a\<close> and \<open>b,c\<close>. The same text with a single quote, and with the double quote
  inside a token, raises the error.
\<close>

theorem unclosed_double_quote_accepted:
  "split_on_commas (''a,'' @ [dquote] @ ''b,c'') = Inr [''a'', ''b,c''] \<and>
   split_on_commas (''a,'' @ [squote] @ ''b,c'') = Inl (ValueError (''a,'' @ [squote] @ ''b,c'')) \<and>
   split_on_commas (''a,k='' @ [dquote] @ ''b,c'')
     = Inl (ValueError (''a,k='' @ [dquote] @ ''b,c''))"
  by (simp add: split_eval csv_eval)

text \<open>
  Where the loop of \<open>_split_with_quotes\<close> sees the open quote, it raises the error: the
  active quote character of a token the loop reaches occurs in it a number of times other
  than two, the token is not taken as a list, and no later rough token ends with the
  quote character.
\<close>

lemma unclosed_quote_raises:
  assumes "csv_first_row value = Inr (before @ part # iter_parts)"
    and "split_parts value before = Inr first_parts"
    and "find_quote_char_in_part part = Some q"
    and "\<not> (0 \<le> str_find part ''=['' \<and> CHR '']'' \<in> set value \<and>
            str_find part ''=['' < str_find part [q])"
    and "count_list part q \<noteq> 2"
    and "\<forall>p \<in> set iter_parts. \<not> endswith p q"
  shows "split_on_commas value = Inl (ValueError value)"
proof -
  from find_quote_char_in_part_Some[OF assms(3)]
  have q: "q = dquote \<or> q = squote" "q \<in> set part" by simp_all
  from csv_first_row_chars[OF assms(1), of part] q have "q \<in> set value" by auto
  with q(1) have g: "dquote \<in> set value \<or> squote \<in> set value \<or>
     CHR ''['' \<in> set value \<or> CHR '']'' \<in> set value" by auto
  have e: "eat_items value iter_parts part q (Some q) = Inl (ValueError value)"
    using assms(6) by (rule eat_items_exhausted)
  have "split_parts value (part # iter_parts) = Inl (ValueError value)"
    using assms(3,4,5) e
    by (subst split_parts.simps) (auto simp: Let_def str_find_char split: if_splits)
  with split_on_commas_reach[OF assms(1,2) g] show ?thesis by simp
qed

section \<open>Quoted sections\<close>

text \<open>
  C5, as the code has it. The claim is that a comma inside a quoted section of a token
  stays inside one output token, with the quotes removed. \<open>quoted_section_counterexample\<close>
  below has the section \<open>'a,b'\<close> followed by more text in the same token: the closing
  quote is looked for at the end of a rough token only, and the split fails. What the
  loop does: when it reaches a rough token (the tokens before it are split without
  error) whose active quote character occurs in it exactly twice, the token is put out
  with that character removed; when the character occurs another number of times, the
  token and the following rough tokens up to the first that ends with the character are
  joined with commas into one output token, with every occurrence of the character
  removed. So the commas at which the rough split cut the section are back in one token.
  In particular \<open>a,"b,c",d\<close> splits into \<open>a\<close>, \<open>b,c\<close>, \<open>d\<close>, and
  \<open>key='a,b',other=1\<close> into \<open>key=a,b\<close>, \<open>other=1\<close>.
\<close>

theorem quoted_section_kept:
  "(csv_first_row value = Inr (before @ part # eaten @ iter_parts) \<and>
    split_parts value before = Inr first_parts \<and>
    find_quote_char_in_part part = Some q \<and>
    \<not> (0 \<le> str_find part ''=['' \<and> CHR '']'' \<in> set value \<and>
       str_find part ''=['' < str_find part [q]) \<and>
    (if count_list part q = 2 then eaten = []
     else eaten \<noteq> [] \<and> endswith (last eaten) q \<and>
          (\<forall>c \<in> set (butlast eaten). \<not> endswith c q))
    \<longrightarrow> split_on_commas value =
          (case split_parts value iter_parts of
             Inl e \<Rightarrow> Inl e
           | Inr new_parts \<Rightarrow>
               Inr (first_parts @
                    str_join '','' (map (\<lambda>c. str_replace_blank c (Some q)) (part # eaten))
                    # new_parts))) \<and>
   split_on_commas (''a,'' @ [dquote] @ ''b,c'' @ [dquote] @ '',d'') = Inr [''a'', ''b,c'', ''d''] \<and>
   split_on_commas (''key='' @ [squote] @ ''a,b'' @ [squote] @ '',other=1'')
     = Inr [''key=a,b'', ''other=1'']"
proof (intro conjI impI)
  assume a: "csv_first_row value = Inr (before @ part # eaten @ iter_parts) \<and>
    split_parts value before = Inr first_parts \<and>
    find_quote_char_in_part part = Some q \<and>
    \<not> (0 \<le> str_find part ''=['' \<and> CHR '']'' \<in> set value \<and>
       str_find part ''=['' < str_find part [q]) \<and>
    (if count_list part q = 2 then eaten = []
     else eaten \<noteq> [] \<and> endswith (last eaten) q \<and>
          (\<forall>c \<in> set (butlast eaten). \<not> endswith c q))"
  then have rows: "csv_first_row value = Inr (before @ part # eaten @ iter_parts)"
    and reach: "split_parts value before = Inr first_parts"
    and quote: "find_quote_char_in_part part = Some q" by simp_all
  from find_quote_char_in_part_Some[OF quote]
  have q: "q = dquote \<or> q = squote" "q \<in> set part" by simp_all
  have "part \<in> set (before @ part # eaten @ iter_parts)" by simp
  from csv_first_row_chars[OF rows this] q have "q \<in> set value" by auto
  with q(1) have g: "dquote \<in> set value \<or> squote \<in> set value \<or>
     CHR ''['' \<in> set value \<or> CHR '']'' \<in> set value" by auto
  from a have "split_parts value (part # eaten @ iter_parts) =
     (case split_parts value iter_parts of
        Inl e \<Rightarrow> Inl e
      | Inr new_parts \<Rightarrow>
          Inr (str_join '','' (map (\<lambda>c. str_replace_blank c (Some q)) (part # eaten))
               # new_parts))"
    by (intro split_parts_quote_chunk) simp_all
  with split_on_commas_reach[OF rows reach g]
  show "split_on_commas value =
          (case split_parts value iter_parts of
             Inl e \<Rightarrow> Inl e
           | Inr new_parts \<Rightarrow>
               Inr (first_parts @
                    str_join '','' (map (\<lambda>c. str_replace_blank c (Some q)) (part # eaten))
                    # new_parts))"
    by (simp split: sum.splits)
next
  show "split_on_commas (''a,'' @ [dquote] @ ''b,c'' @ [dquote] @ '',d'') = Inr [''a'', ''b,c'', ''d'']"
    by (simp add: split_eval csv_eval)
next
  show "split_on_commas (''key='' @ [squote] @ ''a,b'' @ [squote] @ '',other=1'')
     = Inr [''key=a,b'', ''other=1'']"
    by (simp add: split_eval csv_eval)
qed

theorem quoted_section_kept_witness:
  "csv_first_row (''x,key='' @ [squote] @ ''a,b,c'' @ [squote] @ '',other=1'')
     = Inr ([''x''] @ (''key='' @ [squote] @ ''a'') # [''b'', ''c'' @ [squote]] @ [''other=1'']) \<and>
   split_parts (''x,key='' @ [squote] @ ''a,b,c'' @ [squote] @ '',other=1'') [''x''] = Inr [''x''] \<and>
   find_quote_char_in_part (''key='' @ [squote] @ ''a'') = Some squote \<and>
   count_list (''key='' @ [squote] @ ''a'') squote \<noteq> 2 \<and>
   endswith (''c'' @ [squote]) squote \<and> \<not> endswith ''b'' squote \<and>
   split_on_commas (''x,key='' @ [squote] @ ''a,b,c'' @ [squote] @ '',other=1'')
     = Inr [''x'', ''key=a,b,c'', ''other=1''] \<and>
   csv_first_row (''k='' @ [dquote] @ ''v'' @ [dquote] @ '',z'')
     = Inr ([] @ (''k='' @ [dquote] @ ''v'' @ [dquote]) # [] @ [''z'']) \<and>
   count_list (''k='' @ [dquote] @ ''v'' @ [dquote]) dquote = 2 \<and>
   split_on_commas (''k='' @ [dquote] @ ''v'' @ [dquote] @ '',z'') = Inr [''k=v'', ''z'']"
proof -
  let ?v = "''x,key='' @ [squote] @ ''a,b,c'' @ [squote] @ '',other=1''"
  let ?p = "''key='' @ [squote] @ ''a''"
  have 1: "csv_first_row ?v = Inr ([''x''] @ ?p # [''b'', ''c'' @ [squote]] @ [''other=1''])"
    by (simp add: csv_eval)
  have 2: "split_parts ?v [''x''] = Inr [''x'']"
    by (simp add: split_eval)
  have 3: "find_quote_char_in_part ?p = Some squote"
    by (simp add: find_quote_char_in_part_def)
  have 4: "\<not> (0 \<le> str_find ?p ''=['' \<and> CHR '']'' \<in> set ?v \<and>
       str_find ?p ''=['' < str_find ?p [squote])"
    by simp
  have 5: "if count_list ?p squote = 2 then [''b'', ''c'' @ [squote]] = []
     else [''b'', ''c'' @ [squote]] \<noteq> [] \<and> endswith (last [''b'', ''c'' @ [squote]]) squote \<and>
          (\<forall>c \<in> set (butlast [''b'', ''c'' @ [squote]]). \<not> endswith c squote)"
    by (simp add: endswith_def)
  have 6: "split_parts ?v [''other=1''] = Inr [''other=1'']"
    by (simp add: split_eval)
  from quoted_section_kept[of ?v "[''x'']" ?p "[''b'', ''c'' @ [squote]]" "[''other=1'']"
      "[''x'']" squote] 1 2 3 4 5
  have "split_on_commas ?v =
          (case split_parts ?v [''other=1''] of
             Inl e \<Rightarrow> Inl e
           | Inr new_parts \<Rightarrow>
               Inr ([''x''] @
                    str_join '','' (map (\<lambda>c. str_replace_blank c (Some squote))
                                      (?p # [''b'', ''c'' @ [squote]]))
                    # new_parts))"
    by blast
  with 6 have a: "split_on_commas ?v = Inr [''x'', ''key=a,b,c'', ''other=1'']" by simp
  let ?w = "''k='' @ [dquote] @ ''v'' @ [dquote] @ '',z''"
  let ?r = "''k='' @ [dquote] @ ''v'' @ [dquote]"
  have 11: "csv_first_row ?w = Inr ([] @ ?r # [] @ [''z''])"
    by (simp add: csv_eval)
  have 12: "split_parts ?w [] = Inr []" by simp
  have 13: "find_quote_char_in_part ?r = Some dquote"
    by (simp add: find_quote_char_in_part_def)
  have 14: "\<not> (0 \<le> str_find ?r ''=['' \<and> CHR '']'' \<in> set ?w \<and>
       str_find ?r ''=['' < str_find ?r [dquote])"
    by simp
  have 15: "if count_list ?r dquote = 2 then ([]::string list) = []
     else ([]::string list) \<noteq> [] \<and> endswith (last []) dquote \<and>
          (\<forall>c \<in> set (butlast []). \<not> endswith c dquote)"
    by simp
  have 16: "split_parts ?w [''z''] = Inr [''z'']"
    by (simp add: split_eval)
  from quoted_section_kept[of ?w "[]" ?r "[]" "[''z'']" "[]" dquote] 11 12 13 14 15
  have "split_on_commas ?w =
          (case split_parts ?w [''z''] of
             Inl e \<Rightarrow> Inl e
           | Inr new_parts \<Rightarrow>
               Inr ([] @ str_join '','' (map (\<lambda>c. str_replace_blank c (Some dquote)) (?r # []))
                    # new_parts))"
    by blast
  with 16 have b: "split_on_commas ?w = Inr [''k=v'', ''z'']" by simp
  have 17: "count_list ?p squote \<noteq> 2" "endswith (''c'' @ [squote]) squote"
    "\<not> endswith ''b'' squote" "count_list ?r dquote = 2"
    by (simp_all add: endswith_def)
  from 1 2 3 17 a 11 b show ?thesis by simp
qed

text \<open>The closing quote is not the last character of a rough token.\<close>

theorem quoted_section_counterexample:
  "split_on_commas (squote # ''a,b'' @ squote # ''c'')
     = Inl (ValueError (squote # ''a,b'' @ squote # ''c''))"
  by (simp add: split_eval csv_eval)

section \<open>Splitting the output again\<close>

text \<open>
  C6, as the code has it. The claim is that an output whose comma-join holds no quote
  and no bracket splits into itself again; \<open>resplit_counterexample\<close> below has a token
  with a comma in it, which the second split cuts. With the two further conditions that
  the output is not empty and no token holds a comma, and that the join holds no
  backslash either, the join splits into the output.
\<close>

theorem resplit_tokens:
  assumes "split_on_commas s = Inr ts" and "ts \<noteq> []"
    and "\<forall>t \<in> set ts. CHR '','' \<notin> set t"
    and "dquote \<notin> set (str_join '','' ts)" and "squote \<notin> set (str_join '','' ts)"
    and "CHR ''['' \<notin> set (str_join '','' ts)" and "CHR '']'' \<notin> set (str_join '','' ts)"
    and "backslash \<notin> set (str_join '','' ts)"
  shows "split_on_commas (str_join '','' ts) = Inr ts"
  using assms str_split_join[of ts "CHR '',''"] by (simp add: split_on_commas_def)

theorem resplit_tokens_witness:
  "split_on_commas (''a,'' @ [dquote] @ ''b'' @ [dquote] @ '',c'') = Inr [''a'', ''b'', ''c''] \<and>
   split_on_commas (str_join '','' [''a'', ''b'', ''c'']) = Inr [''a'', ''b'', ''c'']"
proof -
  have 1: "split_on_commas (''a,'' @ [dquote] @ ''b'' @ [dquote] @ '',c'') = Inr [''a'', ''b'', ''c'']"
    by (simp add: split_eval csv_eval)
  have 2: "[''a'', ''b'', ''c''] \<noteq> []" by simp
  have 3: "\<forall>t \<in> set [''a'', ''b'', ''c'']. CHR '','' \<notin> set t" by simp
  have 4: "dquote \<notin> set (str_join '','' [''a'', ''b'', ''c''])"
    "squote \<notin> set (str_join '','' [''a'', ''b'', ''c''])"
    "CHR ''['' \<notin> set (str_join '','' [''a'', ''b'', ''c''])"
    "CHR '']'' \<notin> set (str_join '','' [''a'', ''b'', ''c''])"
    "backslash \<notin> set (str_join '','' [''a'', ''b'', ''c''])"
    by simp_all
  from resplit_tokens[OF 1 2 3 4] 1 show ?thesis by simp
qed

text \<open>The output of \<open>a,"b,c",d\<close> joined and split again has four tokens, not three.\<close>

theorem resplit_counterexample:
  "split_on_commas (''a,'' @ [dquote] @ ''b,c'' @ [dquote] @ '',d'') = Inr [''a'', ''b,c'', ''d''] \<and>
   dquote \<notin> set (str_join '','' [''a'', ''b,c'', ''d'']) \<and>
   squote \<notin> set (str_join '','' [''a'', ''b,c'', ''d'']) \<and>
   CHR ''['' \<notin> set (str_join '','' [''a'', ''b,c'', ''d'']) \<and>
   CHR '']'' \<notin> set (str_join '','' [''a'', ''b,c'', ''d'']) \<and>
   split_on_commas (str_join '','' [''a'', ''b,c'', ''d'']) = Inr [''a'', ''b'', ''c'', ''d''] \<and>
   split_on_commas (str_join '','' [''a'', ''b,c'', ''d'']) \<noteq> Inr [''a'', ''b,c'', ''d'']"
  by (simp add: split_eval csv_eval)

section \<open>What the error carries\<close>

text \<open>
  C9, as the code has it. The claim is that every error carries the full input of the
  top-level call. \<open>error_payload_counterexample\<close> below shows an error raised inside
  the nested split of a bracketed list, which carries the text between the brackets,
  and an input the reader refuses, reported with a prefix before the input. For an
  input the reader accepts: when the splitter fails, either the error is \<open>ValueError\<close>
  carrying exactly the input, or it is the error of the nested split of a list (a rough
  token that holds the marker and is taken as a list, joined with the rough tokens
  eaten for it), raised as the nested call raised it.
\<close>

theorem error_carries_input:
  assumes "split_on_commas value = Inl e"
    and "csv_first_row value = Inr parts"
  shows "e = ValueError value \<or>
     (\<exists>before part eaten rest. parts = before @ part # eaten @ rest \<and>
        0 \<le> str_find part ''=['' \<and> CHR '']'' \<in> set value \<and>
        (case find_quote_char_in_part part of None \<Rightarrow> True
         | Some q \<Rightarrow> str_find part ''=['' < str_find part [q]) \<and>
        split_with_quotes (drop (nat (str_find part ''=['' + 2))
                             (butlast (str_join '','' (part # eaten)))) = Inl e)"
proof -
  from assms have "split_with_quotes value = Inl e"
    by (auto simp: split_on_commas_def split: if_splits)
  with assms(2) have "split_parts value parts = Inl e"
    by (simp add: split_with_quotes_parts)
  then show ?thesis by (rule split_parts_error)
qed

theorem error_carries_input_witness:
  "split_on_commas (''k=[1,'' @ [squote] @ ''b'') = Inl (ValueError (''k=[1,'' @ [squote] @ ''b'')) \<and>
   csv_first_row (''k=[1,'' @ [squote] @ ''b'') = Inr [''k=[1'', squote # ''b''] \<and>
   CHR '']'' \<notin> set (''k=[1,'' @ [squote] @ ''b'') \<and>
   split_on_commas (''k=[a'' @ [squote] @ '']'') = Inl (ValueError (''a'' @ [squote])) \<and>
   csv_first_row (''k=[a'' @ [squote] @ '']'') = Inr [''k=[a'' @ [squote] @ '']''] \<and>
   (\<exists>before part eaten rest.
      [''k=[a'' @ [squote] @ '']''] = before @ part # eaten @ rest \<and>
      0 \<le> str_find part ''=['' \<and>
      split_with_quotes (drop (nat (str_find part ''=['' + 2))
                           (butlast (str_join '','' (part # eaten))))
        = Inl (ValueError (''a'' @ [squote])))"
proof -
  let ?v = "''k=[1,'' @ [squote] @ ''b''"
  have 1: "split_on_commas ?v = Inl (ValueError ?v)"
    by (simp add: split_eval csv_eval)
  have 2: "csv_first_row ?v = Inr [''k=[1'', squote # ''b'']"
    by (simp add: csv_eval)
  have 3: "CHR '']'' \<notin> set ?v" by simp
  from error_carries_input[OF 1 2] 3 have a: "ValueError ?v = ValueError ?v" by blast
  let ?w = "''k=[a'' @ [squote] @ '']''"
  have 4: "split_on_commas ?w = Inl (ValueError (''a'' @ [squote]))"
    by (simp add: split_eval csv_eval)
  have 5: "csv_first_row ?w = Inr [?w]"
    by (simp add: csv_eval)
  have 6: "ValueError (''a'' @ [squote]) \<noteq> ValueError ?w" by simp
  from error_carries_input[OF 4 5] 6
  have b: "\<exists>before part eaten rest.
      [?w] = before @ part # eaten @ rest \<and>
      0 \<le> str_find part ''=['' \<and>
      split_with_quotes (drop (nat (str_find part ''=['' + 2))
                           (butlast (str_join '','' (part # eaten))))
        = Inl (ValueError (''a'' @ [squote]))"
    by blast
  from 1 2 3 4 5 a b show ?thesis by blast
qed

text \<open>
  The quote is left open inside the list: the error names \<open>a'\<close>, not \<open>k=[a']\<close>. A
  carriage return inside a field: the reader refuses the text.
\<close>

theorem error_payload_counterexample:
  "split_on_commas (''k=[a'' @ [squote] @ '']'') = Inl (ValueError (''a'' @ [squote])) \<and>
   split_on_commas (''k=[a'' @ [squote] @ '']'') \<noteq> Inl (ValueError (''k=[a'' @ [squote] @ '']'')) \<and>
   split_on_commas (''a'' @ [squote, carriage_return] @ ''b'')
     = Inl (ValueError (''Bad csv value: '' @ ''a'' @ [squote, carriage_return] @ ''b''))"
  by (simp add: split_eval csv_eval)

text \<open>The empty list: the nested split reads the first row of no rows.\<close>

lemma empty_list_IndexError: "split_on_commas ''k=[]'' = Inl IndexError"
  by (simp add: split_eval csv_eval)

end
